theory Spec2Isabelle
  imports Main "HOL-Library.Sublist" "HOL-Library.AList"
begin

section \<open>Python values, errors and text\<close>

text \<open>
  The two programs of the repository, \<^verbatim>\<open>cert_duplicate_identifier_runtime_optimized.py\<close>
  (the memory-resident strategy, names prefixed \<open>rt_\<close> below) and
  \<^verbatim>\<open>cert_duplicate_identifier_memory_scalable.py\<close> (the disk-resident strategy, names
  prefixed \<open>ms_\<close>), are embedded as functions over explicit state. Every exception the
  Python can raise is a value \<open>Inl e\<close> of the result.

  A \<^verbatim>\<open>bytes\<close> object is a list of 8-bit characters, a \<^verbatim>\<open>str\<close> is a list of Unicode code
  points. Text files are opened with the platform's default encoding and line separator;
  the model fixes them to UTF-8 and \<^verbatim>\<open>"\n"\<close> (a POSIX system).
\<close>

datatype py_error =
    InputFileMissing
  | JSONError
  | IndexError
  | KeyError
  | TypeError
  | ValueError
  | UnicodeDecodeError
  | UnicodeEncodeError
  | FileNotFoundError

type_synonym bytes = string
type_synonym pystr = "nat list"

text \<open>A \<^verbatim>\<open>str\<close> literal of the source, written with ASCII characters.\<close>

definition ustr :: "string \<Rightarrow> pystr" where
  "ustr s = map of_char s"

text \<open>
  \<^verbatim>\<open>bytes.decode()\<close> and the decoder of a text-mode file: strict UTF-8. The decoder walks
  the bytes with the number of continuation bytes still needed, the bits collected so
  far and the range allowed for the next byte (which excludes overlong forms,
  surrogates and code points above U+10FFFF).
\<close>

fun utf8_dec :: "nat \<Rightarrow> nat \<Rightarrow> nat \<Rightarrow> nat \<Rightarrow> bytes \<Rightarrow> py_error + pystr" where
  "utf8_dec need acc lo hi [] = (if need = 0 then Inr [] else Inl UnicodeDecodeError)"
| "utf8_dec need acc lo hi (b # bs) =
    (let n = of_char b in
     if need = 0 then
       (if n < 0x80 then
          (case utf8_dec 0 0 0x80 0xBF bs of Inl e \<Rightarrow> Inl e | Inr s \<Rightarrow> Inr (n # s))
        else if 0xC2 \<le> n \<and> n \<le> 0xDF then utf8_dec 1 (n - 0xC0) 0x80 0xBF bs
        else if 0xE0 \<le> n \<and> n \<le> 0xEF then
          utf8_dec 2 (n - 0xE0) (if n = 0xE0 then 0xA0 else 0x80)
            (if n = 0xED then 0x9F else 0xBF) bs
        else if 0xF0 \<le> n \<and> n \<le> 0xF4 then
          utf8_dec 3 (n - 0xF0) (if n = 0xF0 then 0x90 else 0x80)
            (if n = 0xF4 then 0x8F else 0xBF) bs
        else Inl UnicodeDecodeError)
     else if lo \<le> n \<and> n \<le> hi then
       (if need = 1 then
          (case utf8_dec 0 0 0x80 0xBF bs of Inl e \<Rightarrow> Inl e
           | Inr s \<Rightarrow> Inr ((acc * 64 + (n - 0x80)) # s))
        else utf8_dec (need - 1) (acc * 64 + (n - 0x80)) 0x80 0xBF bs)
     else Inl UnicodeDecodeError)"

definition utf8_decode :: "bytes \<Rightarrow> py_error + pystr" where
  "utf8_decode bs = utf8_dec 0 0 0x80 0xBF bs"

text \<open>The encoder of a text-mode file opened for writing: strict UTF-8.\<close>

definition encode_cp :: "nat \<Rightarrow> py_error + bytes" where
  "encode_cp c =
    (if c < 0x80 then Inr [char_of c]
     else if c < 0x800 then Inr [char_of (0xC0 + c div 64), char_of (0x80 + c mod 64)]
     else if 0xD800 \<le> c \<and> c \<le> 0xDFFF then Inl UnicodeEncodeError
     else if c < 0x10000 then
       Inr [char_of (0xE0 + c div 4096), char_of (0x80 + c div 64 mod 64),
            char_of (0x80 + c mod 64)]
     else if c < 0x110000 then
       Inr [char_of (0xF0 + c div 262144), char_of (0x80 + c div 4096 mod 64),
            char_of (0x80 + c div 64 mod 64), char_of (0x80 + c mod 64)]
     else Inl UnicodeEncodeError)"

fun utf8_encode :: "pystr \<Rightarrow> py_error + bytes" where
  "utf8_encode [] = Inr []"
| "utf8_encode (c # s) =
    (case encode_cp c of Inl e \<Rightarrow> Inl e
     | Inr bs \<Rightarrow> (case utf8_encode s of Inl e \<Rightarrow> Inl e | Inr r \<Rightarrow> Inr (bs @ r)))"

text \<open>
  \<^verbatim>\<open>str.isspace\<close> on one character and \<^verbatim>\<open>str.rstrip()\<close> with no argument, which removes
  the trailing characters that are whitespace; \<^verbatim>\<open>str.rstrip(',')\<close> removes trailing commas.
\<close>

definition isspace :: "nat \<Rightarrow> bool" where
  "isspace c =
    ((0x09 \<le> c \<and> c \<le> 0x0D) \<or> (0x1C \<le> c \<and> c \<le> 0x20) \<or> c = 0x85 \<or> c = 0xA0
     \<or> c = 0x1680 \<or> (0x2000 \<le> c \<and> c \<le> 0x200A) \<or> c = 0x2028 \<or> c = 0x2029
     \<or> c = 0x202F \<or> c = 0x205F \<or> c = 0x3000)"

definition rstrip :: "pystr \<Rightarrow> pystr" where
  "rstrip s = rev (dropWhile isspace (rev s))"

definition rstrip_comma :: "pystr \<Rightarrow> pystr" where
  "rstrip_comma s = rev (dropWhile (\<lambda>c. c = 0x2C) (rev s))"

text \<open>
  A file opened with \<^verbatim>\<open>mode='r'\<close> has universal newlines: \<^verbatim>\<open>"\r\n"\<close> and a lone \<^verbatim>\<open>"\r"\<close>
  are both read as \<^verbatim>\<open>"\n"\<close>.
\<close>

fun universal_newlines :: "pystr \<Rightarrow> pystr" where
  "universal_newlines [] = []"
| "universal_newlines [c] = [if c = 0x0D then 0x0A else c]"
| "universal_newlines (c # d # s) =
    (if c = 0x0D \<and> d = 0x0A then 0x0A # universal_newlines s
     else (if c = 0x0D then 0x0A else c) # universal_newlines (d # s))"

text \<open>
  \<^verbatim>\<open>f.seek(pos); f.read(n)\<close> on the input file opened with \<^verbatim>\<open>mode='r'\<close>: the handle is
  a text stream, so \<open>n\<close> counts decoded characters after newline translation, not bytes.
  The model decodes everything from \<open>pos\<close> to the end of the file; CPython decodes in
  chunks, so the two differ only on a file that is not valid UTF-8 beyond the chunk read.
\<close>

definition text_read :: "bytes \<Rightarrow> nat \<Rightarrow> nat \<Rightarrow> py_error + pystr" where
  "text_read data pos n =
    (case utf8_decode (drop pos data) of
       Inl e \<Rightarrow> Inl e
     | Inr s \<Rightarrow> Inr (take n (universal_newlines s)))"

text \<open>
  \<^verbatim>\<open>readline()\<close> on the input file opened with \<^verbatim>\<open>mode='rb'\<close>, applied to the bytes from
  the current position on: the bytes up to and including the first \<^verbatim>\<open>b"\n"\<close>, or all of
  them when there is none; \<^verbatim>\<open>b""\<close> at the end of the file. \<^verbatim>\<open>tell()\<close> afterwards is the old
  position plus the length of the line.
\<close>

fun readline :: "bytes \<Rightarrow> bytes" where
  "readline [] = []"
| "readline (b # bs) = (if b = CHR 0x0A then [b] else b # readline bs)"

text \<open>\<^verbatim>\<open>str(n)\<close> of a non-negative and of any integer.\<close>

function str_nat :: "nat \<Rightarrow> string" where
  "str_nat n =
    (if n < 10 then [char_of (48 + n)] else str_nat (n div 10) @ [char_of (48 + n mod 10)])"
  by pat_completeness auto
termination
  by (relation "measure id") auto

declare str_nat.simps [simp del]

definition str_int :: "int \<Rightarrow> string" where
  "str_int i = (if i < 0 then CHR ''-'' # str_nat (nat (- i)) else str_nat (nat i))"

subsection \<open>The values the fingerprint extraction yields\<close>

text \<open>
  \<^verbatim>\<open>ijson.items\<close> builds Python objects from the JSON text: \<^verbatim>\<open>None\<close>, booleans, integers,
  strings, lists and dicts (non-integer numbers, which ijson returns as \<^verbatim>\<open>Decimal\<close>, are
  not modelled). The scalars are hashable and can be keys of a \<^verbatim>\<open>dict\<close>; lists and dicts
  are not.
\<close>

datatype pyscalar = PyNone | PyBool bool | PyInt int | PyStr pystr

datatype pyval = Scalar pyscalar | PyList "pyval list" | PyDict "(pystr \<times> pyval) list"

text \<open>
  Two keys of a \<^verbatim>\<open>dict\<close> are the same key when they are equal (\<^verbatim>\<open>==\<close>) and hash alike:
  \<^verbatim>\<open>True\<close> is the key \<^verbatim>\<open>1\<close> and \<^verbatim>\<open>False\<close> the key \<^verbatim>\<open>0\<close>.
\<close>

datatype pykey = KNone | KInt int | KStr pystr

fun key_of :: "pyscalar \<Rightarrow> pykey" where
  "key_of PyNone = KNone"
| "key_of (PyBool b) = KInt (if b then 1 else 0)"
| "key_of (PyInt i) = KInt i"
| "key_of (PyStr s) = KStr s"

text \<open>\<^verbatim>\<open>'%s' % x\<close> for a scalar \<open>x\<close>.\<close>

fun py_format :: "pyscalar \<Rightarrow> pystr" where
  "py_format PyNone = ustr ''None''"
| "py_format (PyBool b) = ustr (if b then ''True'' else ''False'')"
| "py_format (PyInt i) = ustr (str_int i)"
| "py_format (PyStr s) = s"

text \<open>
  A \<^verbatim>\<open>dict\<close> keeps its items in insertion order; assigning to a key that is present
  replaces the value and keeps the stored key object and its place.
\<close>

type_synonym 'v pydict = "(pyscalar \<times> 'v) list"

fun dict_get :: "'v pydict \<Rightarrow> pyscalar \<Rightarrow> 'v option" where
  "dict_get [] k = None"
| "dict_get ((k', v) # d) k = (if key_of k' = key_of k then Some v else dict_get d k)"

fun dict_set :: "'v pydict \<Rightarrow> pyscalar \<Rightarrow> 'v \<Rightarrow> 'v pydict" where
  "dict_set [] k v = [(k, v)]"
| "dict_set ((k', v') # d) k v =
    (if key_of k' = key_of k then (k', v) # d else (k', v') # dict_set d k v)"

text \<open>
  The library call \<^verbatim>\<open>list(ijson.items(io.BytesIO(line), 'data.leaf_cert'))\<close> is a parameter
  of the model: a function from the bytes of a line to the list of objects found at the
  path, or to the error the parser raises. The source then takes element \<open>0\<close> and its
  item \<^verbatim>\<open>'fingerprint'\<close>, and looks the result up in the dict, which hashes it.
\<close>

type_synonym ijson_items = "bytes \<Rightarrow> py_error + pyval list"

definition finger_print_str :: "ijson_items \<Rightarrow> bytes \<Rightarrow> py_error + pyscalar" where
  "finger_print_str items line =
    (case items line of
       Inl e \<Rightarrow> Inl e
     | Inr [] \<Rightarrow> Inl IndexError
     | Inr (v # _) \<Rightarrow>
        (case v of
           PyDict kvs \<Rightarrow>
             (case map_of kvs (ustr ''fingerprint'') of
                None \<Rightarrow> Inl KeyError
              | Some (Scalar k) \<Rightarrow> Inr k
              | Some _ \<Rightarrow> Inl TypeError)
         | _ \<Rightarrow> Inl TypeError))"

section \<open>The scan shared by both strategies\<close>

text \<open>
  Both programs open the input with \<^verbatim>\<open>mode='rb'\<close> and run the same loop:
  \<^verbatim>\<open>start = tell(); line = readline(); while line: end = tell(); ...; length = end - start;
  ...; start = tell(); line = readline()\<close>. The loop is modelled once, with the body
  that updates the state as a parameter: \<open>body start length line\<close>. An exception raised
  in the body leaves the loop: the result is then \<open>Inl (e, st)\<close>, the exception with the
  state before the iteration that raised it (which is the state at the exception when
  the extraction of the fingerprint raises, the first thing an iteration does).
\<close>

function process_loop ::
  "(nat \<Rightarrow> nat \<Rightarrow> bytes \<Rightarrow> 's \<Rightarrow> py_error + 's) \<Rightarrow> bytes \<Rightarrow> nat \<Rightarrow> 's
    \<Rightarrow> (py_error \<times> 's) + 's" where
  "process_loop body data start st =
    (let line = readline (drop start data) in
     if line = [] then Inr st
     else
       let end = start + length line in
       (case body start (end - start) line st of
          Inl e \<Rightarrow> Inl (e, st)
        | Inr st' \<Rightarrow> process_loop body data end st'))"
  by pat_completeness auto
termination
proof (relation "measure (\<lambda>(body, data, start, st). length data - start)", goal_cases)
  case 1
  show ?case by simp
next
  case (2 body data start st line e st')
  have "bs \<noteq> []" if "readline bs \<noteq> []" for bs
    using that by (cases bs) auto
  with 2 have "start < length data" and "0 < length line"
    by fastforce+
  then have "length data - (start + length line) < length data - start"
    by arith
  with 2 show ?case by simp
qed

declare process_loop.simps [simp del]

text \<open>
  The records the loop visits, as \<open>(start, length, line)\<close>: the values of the loop's
  variables at each iteration when no iteration raises.
\<close>

function scan_records :: "bytes \<Rightarrow> nat \<Rightarrow> (nat \<times> nat \<times> bytes) list" where
  "scan_records data start =
    (let line = readline (drop start data) in
     if line = [] then []
     else
       let end = start + length line in
       (start, end - start, line) # scan_records data end)"
  by pat_completeness auto
termination
proof (relation "measure (\<lambda>(data, start). length data - start)", goal_cases)
  case 1
  show ?case by simp
next
  case (2 data start line e)
  have "bs \<noteq> []" if "readline bs \<noteq> []" for bs
    using that by (cases bs) auto
  with 2 have "start < length data" and "0 < length line"
    by fastforce+
  then have "length data - (start + length line) < length data - start"
    by arith
  with 2 show ?case by simp
qed

declare scan_records.simps [simp del]

fun run_records ::
  "(nat \<Rightarrow> nat \<Rightarrow> bytes \<Rightarrow> 's \<Rightarrow> py_error + 's) \<Rightarrow> (nat \<times> nat \<times> bytes) list \<Rightarrow> 's
    \<Rightarrow> (py_error \<times> 's) + 's" where
  "run_records body [] st = Inr st"
| "run_records body ((start, len, line) # rs) st =
    (case body start len line st of
       Inl e \<Rightarrow> Inl (e, st)
     | Inr st' \<Rightarrow> run_records body rs st')"

section \<open>The memory-resident strategy\<close>

text \<open>
  \<^verbatim>\<open>MapValue\<close> of the runtime-optimised program has the one slot \<^verbatim>\<open>position_array\<close>, so
  the fingerprint map is a dict from fingerprints to lists of \<open>(start, length)\<close>.
\<close>

type_synonym rt_map = "((nat \<times> nat) list) pydict"

definition rt_body :: "ijson_items \<Rightarrow> nat \<Rightarrow> nat \<Rightarrow> bytes \<Rightarrow> rt_map \<Rightarrow> py_error + rt_map" where
  "rt_body items start len line m =
    (case finger_print_str items line of
       Inl e \<Rightarrow> Inl e
     | Inr k \<Rightarrow>
        (case dict_get m k of
           Some position_array \<Rightarrow> Inr (dict_set m k (position_array @ [(start, len)]))
         | None \<Rightarrow> Inr (dict_set m k [(start, len)])))"

definition rt_process_data :: "ijson_items \<Rightarrow> bytes option \<Rightarrow> (py_error \<times> rt_map) + rt_map" where
  "rt_process_data items input_file =
    (case input_file of
       None \<Rightarrow> Inl (InputFileMissing, [])
     | Some data \<Rightarrow> process_loop (rt_body items) data 0 [])"

text \<open>
  The files of the output side are an association list from paths to contents, in the
  order of creation. Directories are not modelled: removing a directory tree removes the
  files below it. The input file lies outside the output directory and is not changed by
  a run; it is passed as its bytes, \<open>None\<close> when it does not exist.
\<close>

type_synonym filesystem = "(string \<times> bytes) list"

definition get_file_path :: "string \<Rightarrow> string \<Rightarrow> string \<Rightarrow> string" where
  "get_file_path directory filename extension = directory @ ''/'' @ filename @ extension"

definition rmtree :: "string \<Rightarrow> filesystem \<Rightarrow> filesystem" where
  "rmtree directory fs = filter (\<lambda>(p, c). \<not> prefix (directory @ ''/'') p) fs"

definition clean_and_create_directory :: "string \<Rightarrow> filesystem \<Rightarrow> filesystem" where
  "clean_and_create_directory directory fs = rmtree directory fs"

definition clean_directory :: "string \<Rightarrow> filesystem \<Rightarrow> filesystem" where
  "clean_directory directory fs = rmtree directory fs"

text \<open>The opening text of a group: \<^verbatim>\<open>'{"fingerprint": "%s", "certificates": [' % fp\<close>.\<close>

definition header :: "pyscalar \<Rightarrow> pystr" where
  \<open>header fp = ustr ''{"fingerprint": "'' @ py_format fp @ ustr ''", "certificates": [''\<close>

text \<open>
  \<^verbatim>\<open>write\<close>: the inner loop over \<^verbatim>\<open>position_array\<close> re-reads each record through a
  text-mode handle and appends it, stripped, with a comma; the text of the group then
  loses its trailing commas and is closed. The outer loop writes one text per
  fingerprint with more than one position, in the order of the dict. Each text written is
  paired with the fingerprint of its iteration.
\<close>

fun rt_read_positions :: "bytes \<Rightarrow> pystr \<Rightarrow> (nat \<times> nat) list \<Rightarrow> py_error + pystr" where
  "rt_read_positions data text [] = Inr text"
| "rt_read_positions data text ((start, len) # ps) =
    (case text_read data start len of
       Inl e \<Rightarrow> Inl e
     | Inr line \<Rightarrow> rt_read_positions data (text @ rstrip line @ ustr '','') ps)"

definition rt_group :: "bytes \<Rightarrow> pyscalar \<Rightarrow> (nat \<times> nat) list \<Rightarrow> py_error + bytes" where
  "rt_group data fp position_array =
    (case rt_read_positions data (header fp) position_array of
       Inl e \<Rightarrow> Inl e
     | Inr text \<Rightarrow> utf8_encode (rstrip_comma text @ ustr '']}'' @ [0x0A]))"

fun rt_write_items :: "bytes \<Rightarrow> rt_map \<Rightarrow> py_error + (pyscalar \<times> bytes) list" where
  "rt_write_items data [] = Inr []"
| "rt_write_items data ((fp, position_array) # m) =
    (if length position_array > 1 then
       (case rt_group data fp position_array of
          Inl e \<Rightarrow> Inl e
        | Inr text \<Rightarrow>
           (case rt_write_items data m of Inl e \<Rightarrow> Inl e | Inr ws \<Rightarrow> Inr ((fp, text) # ws)))
     else rt_write_items data m)"

definition output_path :: "string \<Rightarrow> string" where
  "output_path output_directory =
    get_file_path (if output_directory = [] then ''output'' else output_directory)
      ''duplicate_certificates'' ''.jsonline''"

definition rt_write ::
  "bytes option \<Rightarrow> rt_map \<Rightarrow> string \<Rightarrow> filesystem \<Rightarrow> py_error + filesystem" where
  "rt_write input_file m output_directory fs =
    (case input_file of
       None \<Rightarrow> Inl InputFileMissing
     | Some data \<Rightarrow>
        (let dir = (if output_directory = [] then ''output'' else output_directory);
             fs1 = clean_and_create_directory dir fs in
         case rt_write_items data m of
           Inl e \<Rightarrow> Inl e
         | Inr ws \<Rightarrow> Inr (AList.update (output_path output_directory) (concat (map snd ws)) fs1)))"

text \<open>
  The script: \<^verbatim>\<open>process_data(INPUT_FILE)\<close>, then \<^verbatim>\<open>write(OUTPUT_DIRECTORY)\<close>. When
  \<^verbatim>\<open>process_data\<close> raises, the script ends there, with the files as they are: the result
  is the exception and the file system. (An exception of \<^verbatim>\<open>write\<close> leaves an output file
  that is not modelled.)
\<close>

definition rt_main ::
  "ijson_items \<Rightarrow> bytes option \<Rightarrow> string \<Rightarrow> filesystem \<Rightarrow> (py_error \<times> filesystem option) + filesystem" where
  "rt_main items input_file output_directory fs =
    (case rt_process_data items input_file of
       Inl (e, m) \<Rightarrow> Inl (e, Some fs)
     | Inr m \<Rightarrow>
        (case rt_write input_file m output_directory fs of
           Inl e \<Rightarrow> Inl (e, None)
         | Inr fs' \<Rightarrow> Inr fs'))"

section \<open>The disk-resident strategy\<close>

datatype tag = TAG_NEW | TAG_EXISTING

text \<open>
  \<^verbatim>\<open>MapValue\<close> of the memory-scalable program. \<^verbatim>\<open>end_offset\<close> is created as \<^verbatim>\<open>""\<close> (here
  \<open>None\<close>) and later holds the integer \<^verbatim>\<open>tell()\<close> returned.
\<close>

record MapValue =
  mv_start :: nat
  mv_length :: nat
  mv_tag :: tag
  mv_path :: string
  mv_end_offset :: "nat option"

text \<open>
  Writing \<open>new\<close> at position \<open>pos\<close> of a file: the bytes before \<open>pos\<close> stay (a gap
  beyond the end is filled with zero bytes), the bytes under \<open>new\<close> are replaced, the
  bytes after it stay.
\<close>

definition pwrite :: "bytes \<Rightarrow> nat \<Rightarrow> bytes \<Rightarrow> bytes" where
  "pwrite old pos new =
    take pos old @ replicate (pos - length old) (CHR 0x00) @ new @ drop (pos + length new) old"

text \<open>
  \<^verbatim>\<open>append\<close>. With the tag \<^verbatim>\<open>NW\<close> the first record is re-read from the input through a
  text-mode handle and the file of the fingerprint is created with both records; with
  the tag \<^verbatim>\<open>EX\<close> the file is opened \<^verbatim>\<open>r+\<close>, the handle moved to \<^verbatim>\<open>end - 3\<close> and the new
  record written there. The result is the new file system and \<^verbatim>\<open>tell()\<close>.
\<close>

definition ms_append ::
  "bytes \<Rightarrow> filesystem \<Rightarrow> pyscalar \<Rightarrow> MapValue \<Rightarrow> bytes \<Rightarrow> py_error + (filesystem \<times> nat)" where
  "ms_append data fs finger_print map_val current_obj =
    (case utf8_decode current_obj of
       Inl e \<Rightarrow> Inl e
     | Inr cur \<Rightarrow>
        if mv_tag map_val = TAG_NEW then
          (case text_read data (mv_start map_val) (mv_length map_val) of
             Inl e \<Rightarrow> Inl e
           | Inr first_obj \<Rightarrow>
              (case utf8_encode (header finger_print @ rstrip first_obj @ ustr '','' @ rstrip cur
                                  @ ustr '']}'' @ [0x0A]) of
                 Inl e \<Rightarrow> Inl e
               | Inr temp_str \<Rightarrow>
                  Inr (AList.update (mv_path map_val) temp_str fs, length temp_str)))
        else
          (case map_of fs (mv_path map_val) of
             None \<Rightarrow> Inl FileNotFoundError
           | Some old \<Rightarrow>
              (case mv_end_offset map_val of
                 None \<Rightarrow> Inl TypeError
               | Some end \<Rightarrow>
                  if end < 3 then Inl ValueError
                  else
                    (case utf8_encode (ustr '','' @ rstrip cur @ ustr '']}'' @ [0x0A]) of
                       Inl e \<Rightarrow> Inl e
                     | Inr new \<Rightarrow>
                        Inr (AList.update (mv_path map_val) (pwrite old (end - 3) new) fs,
                             end - 3 + length new)))))"

record ms_state =
  finger_print_map :: "MapValue pydict"
  count :: nat
  files :: filesystem

text \<open>The body of the loop of \<^verbatim>\<open>process_data\<close>.\<close>

definition ms_body ::
  "ijson_items \<Rightarrow> bytes \<Rightarrow> string \<Rightarrow> nat \<Rightarrow> nat \<Rightarrow> bytes \<Rightarrow> ms_state \<Rightarrow> py_error + ms_state" where
  "ms_body items data temp_directory start len line st =
    (case finger_print_str items line of
       Inl e \<Rightarrow> Inl e
     | Inr fp \<Rightarrow>
        (case dict_get (finger_print_map st) fp of
           Some map_value \<Rightarrow>
             if mv_tag map_value = TAG_NEW then
               (let count' = count st + 1;
                    path = get_file_path temp_directory (str_nat count') ''.jsonline'';
                    map_value1 = map_value\<lparr>mv_path := path\<rparr>
                in case ms_append data (files st) fp map_value1 line of
                     Inl e \<Rightarrow> Inl e
                   | Inr (fs', end) \<Rightarrow>
                       Inr \<lparr>finger_print_map =
                              dict_set (finger_print_map st) fp
                                (map_value1\<lparr>mv_end_offset := Some end, mv_tag := TAG_EXISTING\<rparr>),
                            count = count', files = fs'\<rparr>)
             else
               (case ms_append data (files st) fp map_value line of
                  Inl e \<Rightarrow> Inl e
                | Inr (fs', end) \<Rightarrow>
                    Inr \<lparr>finger_print_map =
                           dict_set (finger_print_map st) fp (map_value\<lparr>mv_end_offset := Some end\<rparr>),
                         count = count st, files = fs'\<rparr>)
         | None \<Rightarrow>
             Inr (st\<lparr>finger_print_map :=
                       dict_set (finger_print_map st) fp
                         \<lparr>mv_start = start, mv_length = len, mv_tag = TAG_NEW, mv_path = [],
                          mv_end_offset = None\<rparr>\<rparr>)))"

definition temp_path :: "string \<Rightarrow> string" where
  "temp_path output_directory =
    (if output_directory = [] then ''output'' else output_directory) @ ''/'' @ ''temp''"

definition ms_process_data ::
  "ijson_items \<Rightarrow> bytes option \<Rightarrow> string \<Rightarrow> filesystem \<Rightarrow> (py_error \<times> ms_state) + ms_state" where
  "ms_process_data items input_file output_directory fs =
    (case input_file of
       None \<Rightarrow> Inl (InputFileMissing, \<lparr>finger_print_map = [], count = 0, files = fs\<rparr>)
     | Some data \<Rightarrow>
        (let dir = (if output_directory = [] then ''output'' else output_directory);
             fs1 = clean_and_create_directory dir fs;
             temp_directory = temp_path output_directory;
             fs2 = clean_and_create_directory temp_directory fs1
         in process_loop (ms_body items data temp_directory) data 0
              \<lparr>finger_print_map = [], count = 0, files = fs2\<rparr>))"

text \<open>
  \<^verbatim>\<open>merge_and_create_output\<close>. \<^verbatim>\<open>glob.glob\<close> returns the paths that match
  \<^verbatim>\<open>temp_directory + '/*' + '.jsonline'\<close> in an order the operating system chooses: the
  order is the parameter \<open>glob_order\<close>, applied to the matching paths in the order of
  their creation. A path matches when it lies in the directory itself, its name ends in
  \<^verbatim>\<open>.jsonline\<close> and does not start with a dot.
\<close>

definition glob_match :: "string \<Rightarrow> string \<Rightarrow> bool" where
  "glob_match temp_directory p =
    (let name = drop (length temp_directory + 1) p
     in prefix (temp_directory @ ''/'') p \<and> suffix ''.jsonline'' name
        \<and> CHR ''/'' \<notin> set name \<and> hd name \<noteq> CHR ''.'')"

fun copy_files :: "filesystem \<Rightarrow> string list \<Rightarrow> py_error + bytes" where
  "copy_files fs [] = Inr []"
| "copy_files fs (filename # names) =
    (case map_of fs filename of
       None \<Rightarrow> Inl FileNotFoundError
     | Some c \<Rightarrow> (case copy_files fs names of Inl e \<Rightarrow> Inl e | Inr out \<Rightarrow> Inr (c @ out)))"

definition ms_merge_and_create_output ::
  "(string list \<Rightarrow> string list) \<Rightarrow> string \<Rightarrow> bool \<Rightarrow> filesystem \<Rightarrow> py_error + filesystem" where
  "ms_merge_and_create_output glob_order output_directory clear_temp fs =
    (let temp_directory = temp_path output_directory;
         fs1 = AList.update (output_path output_directory) [] fs;
         names = glob_order (filter (glob_match temp_directory) (map fst fs1))
     in case copy_files fs1 names of
          Inl e \<Rightarrow> Inl e
        | Inr out \<Rightarrow>
            (let fs2 = AList.update (output_path output_directory) out fs1
             in Inr (if clear_temp then clean_directory temp_directory fs2 else fs2)))"

text \<open>
  The script: \<^verbatim>\<open>process_data(INPUT_FILE, OUTPUT_DIRECTORY)\<close>, then
  \<^verbatim>\<open>merge_and_create_output()\<close>. When \<^verbatim>\<open>process_data\<close> raises, the script ends there, with the
  files as they are: the result is the exception and the file system. (An exception of
  the merge leaves an output file that is not modelled.)
\<close>

definition ms_main ::
  "ijson_items \<Rightarrow> (string list \<Rightarrow> string list) \<Rightarrow> bytes option \<Rightarrow> string \<Rightarrow> filesystem
    \<Rightarrow> (py_error \<times> filesystem option) + filesystem" where
  "ms_main items glob_order input_file output_directory fs =
    (case ms_process_data items input_file output_directory fs of
       Inl (e, st) \<Rightarrow> Inl (e, Some (files st))
     | Inr st \<Rightarrow>
        (case ms_merge_and_create_output glob_order output_directory True (files st) of
           Inl e \<Rightarrow> Inl (e, None)
         | Inr fs' \<Rightarrow> Inr fs'))"

section \<open>Notions used in the statements\<close>

text \<open>
  A list of records is contiguous from \<open>pos\<close> when the first record starts at \<open>pos\<close>,
  every stored length is the length of the record's line (terminator included) and every
  record starts where the one before it ends.
\<close>

fun contiguous :: "nat \<Rightarrow> (nat \<times> nat \<times> bytes) list \<Rightarrow> bool" where
  "contiguous pos [] = True"
| "contiguous pos ((start, len, line) # rs) =
    (start = pos \<and> len = length line \<and> contiguous (pos + len) rs)"

text \<open>
  The key under which the dict files a record (none when the extraction raises), the
  records of an input that have a given key, in the order of the input, and the location
  \<open>(start, length)\<close> of a record.
\<close>

definition record_key :: "ijson_items \<Rightarrow> nat \<times> nat \<times> bytes \<Rightarrow> pykey option" where
  "record_key items r =
    (case finger_print_str items (snd (snd r)) of Inl e \<Rightarrow> None | Inr k \<Rightarrow> Some (key_of k))"

definition occurrences ::
  "ijson_items \<Rightarrow> (nat \<times> nat \<times> bytes) list \<Rightarrow> pykey \<Rightarrow> (nat \<times> nat \<times> bytes) list" where
  "occurrences items recs \<kappa> = filter (\<lambda>r. record_key items r = Some \<kappa>) recs"

definition location :: "nat \<times> nat \<times> bytes \<Rightarrow> nat \<times> nat" where
  "location r = (fst r, fst (snd r))"

text \<open>The value a dict holds under a key.\<close>

definition dict_lookup :: "'v pydict \<Rightarrow> pykey \<Rightarrow> 'v option" where
  "dict_lookup m \<kappa> = map_of (map (\<lambda>(k, v). (key_of k, v)) m) \<kappa>"

text \<open>The path of the \<open>j\<close>-th file of the temporary directory.\<close>

definition temp_file :: "string \<Rightarrow> nat \<Rightarrow> string" where
  "temp_file temp_directory j = get_file_path temp_directory (str_nat j) ''.jsonline''"

text \<open>The three bytes that close a group: \<^verbatim>\<open>]\<close>, \<^verbatim>\<open>}\<close> and the line feed.\<close>

definition sentinel :: bytes where
  "sentinel = '']}'' @ [CHR 0x0A]"

text \<open>The number a string of decimal digits stands for.\<close>

definition digits_value :: "string \<Rightarrow> nat" where
  "digits_value s = foldl (\<lambda>a c. 10 * a + (of_char c - 48)) 0 s"

text \<open>
  The invariant of the disk-resident loop after the records \<open>recs\<close>. A fingerprint not
  seen has no entry; one seen once has the entry made at its first record, with the tag
  \<^verbatim>\<open>NW\<close>; one seen more often has the location of its first record, the tag \<^verbatim>\<open>EX\<close>, the
  path of a temporary file numbered at most \<open>count\<close>, and \<^verbatim>\<open>end_offset\<close> is the length of
  that file, which ends in the closing bytes. Entries with the tag \<^verbatim>\<open>EX\<close> have different
  paths, and \<open>count\<close> is the number of fingerprints seen more than once.
\<close>

definition ms_entry_ok ::
  "string \<Rightarrow> ms_state \<Rightarrow> (nat \<times> nat \<times> bytes) list \<Rightarrow> MapValue option \<Rightarrow> bool" where
  "ms_entry_ok temp st occ e \<longleftrightarrow>
     (occ = [] \<longrightarrow> e = None) \<and>
     (\<forall>r. occ = [r] \<longrightarrow>
        e = Some \<lparr>mv_start = fst r, mv_length = fst (snd r), mv_tag = TAG_NEW, mv_path = [],
                  mv_end_offset = None\<rparr>) \<and>
     (2 \<le> length occ \<longrightarrow>
        (\<exists>mv j c. e = Some mv \<and> mv_start mv = fst (hd occ) \<and> mv_length mv = fst (snd (hd occ))
           \<and> mv_tag mv = TAG_EXISTING \<and> 1 \<le> j \<and> j \<le> count st
           \<and> mv_path mv = temp_file temp j \<and> map_of (files st) (mv_path mv) = Some c
           \<and> mv_end_offset mv = Some (length c) \<and> suffix sentinel c))"

definition ms_inv ::
  "ijson_items \<Rightarrow> string \<Rightarrow> (nat \<times> nat \<times> bytes) list \<Rightarrow> ms_state \<Rightarrow> bool" where
  "ms_inv items temp recs st \<longleftrightarrow>
     (\<forall>\<kappa>. ms_entry_ok temp st (occurrences items recs \<kappa>) (dict_lookup (finger_print_map st) \<kappa>))
     \<and> (\<forall>\<kappa> \<kappa>' mv mv'.
           dict_lookup (finger_print_map st) \<kappa> = Some mv
           \<and> dict_lookup (finger_print_map st) \<kappa>' = Some mv'
           \<and> mv_tag mv = TAG_EXISTING \<and> mv_tag mv' = TAG_EXISTING
           \<and> mv_path mv = mv_path mv' \<longrightarrow> \<kappa> = \<kappa>')
     \<and> count st = card {\<kappa>. 2 \<le> length (occurrences items recs \<kappa>)}"

subsection \<open>The inputs of the examples\<close>

text \<open>
  A stand-in for \<^verbatim>\<open>ijson\<close> on the lines of the examples. It looks for \<^verbatim>\<open>"fingerprint":\<close>
  and reads the string or the unsigned integer that follows. The lines of the examples
  are JSON objects with one such member, at the path \<^verbatim>\<open>data.leaf_cert\<close>, whose string has
  ASCII characters and no escapes: on them this is the list \<^verbatim>\<open>ijson.items\<close> returns. A
  line without the member has nothing at the path, and the list is empty.
\<close>

fun after_marker :: "string \<Rightarrow> string \<Rightarrow> string option" where
  "after_marker mk [] = None"
| "after_marker mk (c # cs) =
    (if prefix mk (c # cs) then Some (drop (length mk) (c # cs)) else after_marker mk cs)"

definition is_digit :: "char \<Rightarrow> bool" where
  "is_digit c = (48 \<le> (of_char c :: nat) \<and> (of_char c :: nat) \<le> 57)"

definition demo_items :: ijson_items where
  \<open>demo_items line =
    (case after_marker ''"fingerprint":'' line of
       None \<Rightarrow> Inr []
     | Some [] \<Rightarrow> Inl JSONError
     | Some (c # cs) \<Rightarrow>
         if c = CHR 0x22 then
           Inr [PyDict [(ustr ''fingerprint'',
                  Scalar (PyStr (ustr (takeWhile (\<lambda>c. c \<noteq> CHR 0x22) cs))))]]
         else if is_digit c then
           Inr [PyDict [(ustr ''fingerprint'',
                  Scalar (PyInt (int (digits_value (takeWhile is_digit (c # cs))))))]]
         else Inl JSONError)\<close>

definition lf :: bytes where "lf = [CHR 0x0A]"
definition crlf :: bytes where "crlf = [CHR 0x0D, CHR 0x0A]"
definition recA :: bytes where \<open>recA = ''{"data":{"leaf_cert":{"fingerprint":"A"}}}''\<close>
definition recB :: bytes where \<open>recB = ''{"data":{"leaf_cert":{"fingerprint":"B"}}}''\<close>

definition abaa :: bytes where
  "abaa = recA @ lf @ recB @ lf @ recA @ lf @ recA @ lf"


text \<open>
  The files of the temporary directory after a part of a run: the paths that match the
  pattern of the merge are the files numbered from one to \<open>count\<close>, in that order, and
  each of them is the path of an entry with the tag \<^verbatim>\<open>EX\<close>.
\<close>

definition ms_files_inv :: "string \<Rightarrow> ms_state \<Rightarrow> bool" where
  "ms_files_inv temp st \<longleftrightarrow>
     filter (glob_match temp) (map fst (files st)) = map (temp_file temp) [1..<Suc (count st)]
     \<and> (\<forall>j. 1 \<le> j \<and> j \<le> count st \<longrightarrow>
           (\<exists>\<kappa> mv. dict_lookup (finger_print_map st) \<kappa> = Some mv \<and> mv_tag mv = TAG_EXISTING
              \<and> mv_path mv = temp_file temp j))"

text \<open>The locations the index of the disk-resident strategy stores.\<close>

definition ms_stored :: "ms_state \<Rightarrow> (nat \<times> nat) list" where
  "ms_stored st = map (\<lambda>(k, mv). (mv_start mv, mv_length mv)) (finger_print_map st)"

definition aa :: bytes where
  "aa = recA @ lf @ recA @ lf"

definition aba :: bytes where
  "aba = recA @ lf @ recB @ lf @ recA @ lf"

text \<open>
  A line with nothing at the path \<^verbatim>\<open>data.leaf_cert\<close>, and a line whose fingerprint is the
  number 5.
\<close>

definition recX :: bytes where \<open>recX = ''{"data":{}}''\<close>

definition rec5 :: bytes where \<open>rec5 = ''{"data":{"leaf_cert":{"fingerprint":5}}}''\<close>

definition ax :: bytes where
  "ax = recA @ lf @ recX @ lf"

text \<open>A state of the disk-resident run with the files \<open>a\<close> put before its own.\<close>

definition with_files :: "filesystem \<Rightarrow> ms_state \<Rightarrow> ms_state" where
  "with_files a st = st\<lparr>files := a @ files st\<rparr>"

text \<open>
  What a run of a script leaves for its caller: the exception, or the content of the
  output file.
\<close>

definition outcome ::
  "string \<Rightarrow> (py_error \<times> filesystem option) + filesystem \<Rightarrow> py_error + bytes option" where
  "outcome odir res = map_sum fst (\<lambda>f. map_of f (output_path odir)) res"

text \<open>
  A record with a character outside ASCII (U+00E9, two bytes in UTF-8), the opening text
  of the group of fingerprint \<^verbatim>\<open>A\<close>, and the output path below the directory \<^verbatim>\<open>out\<close>.
\<close>

definition recE :: bytes where
  \<open>recE = ''{"data":{"leaf_cert":{"fingerprint":"A","cn":"'' @ [CHR 0xC3, CHR 0xA9] @ ''"}}}''\<close>

definition headerA :: bytes where
  \<open>headerA = ''{"fingerprint": "A", "certificates": [''\<close>

definition out_file :: string where
  "out_file = ''out/duplicate_certificates.jsonline''"

text \<open>The first line of a file, without its line feed.\<close>

definition first_line :: "bytes \<Rightarrow> bytes" where
  "first_line out = takeWhile (\<lambda>c. c \<noteq> CHR 0x0A) out"

subsection \<open>Plain inputs and the groups they should give\<close>

text \<open>
  Bytes below 128, and bytes that in addition are no carriage return: on such an input a
  byte is a character and the text-mode read translates nothing, so the byte offsets of
  the scan are character offsets too.
\<close>

definition ascii :: "bytes \<Rightarrow> bool" where
  "ascii bs = list_all (\<lambda>c. (of_char c :: nat) < 128) bs"

definition plain :: "bytes \<Rightarrow> bool" where
  "plain bs = list_all (\<lambda>c. (of_char c :: nat) < 128 \<and> c \<noteq> CHR 0x0D) bs"

text \<open>
  What \<^verbatim>\<open>rstrip()\<close> leaves of a line, on its bytes, and the entries of a group joined by
  commas.
\<close>

definition bstrip :: "bytes \<Rightarrow> bytes" where
  "bstrip bs = rev (dropWhile (\<lambda>c. isspace (of_char c)) (rev bs))"

fun join_comma :: "bytes list \<Rightarrow> bytes" where
  "join_comma [] = []"
| "join_comma [x] = x"
| "join_comma (x # y # zs) = x @ '','' @ join_comma (y # zs)"

text \<open>
  The fingerprints of the records in the order of their first occurrence, the bytes and
  the Python value of a fingerprint key, and the group of a fingerprint: the header, the
  stripped lines of its records in input order, joined by commas, and the closing bytes.
  \<open>duplicated\<close> are the fingerprints that occur at least twice, in first-seen order.
\<close>

definition keys_in_order :: "ijson_items \<Rightarrow> (nat \<times> nat \<times> bytes) list \<Rightarrow> pykey list" where
  "keys_in_order items recs = rev (remdups (rev (List.map_filter (record_key items) recs)))"

definition key_bytes :: "pykey \<Rightarrow> bytes" where
  "key_bytes \<kappa> = (case \<kappa> of KStr s \<Rightarrow> map char_of s | _ \<Rightarrow> [])"

definition key_scalar :: "pykey \<Rightarrow> pyscalar" where
  "key_scalar \<kappa> = (case \<kappa> of KStr s \<Rightarrow> PyStr s | KInt i \<Rightarrow> PyInt i | KNone \<Rightarrow> PyNone)"

definition group_bytes :: "ijson_items \<Rightarrow> (nat \<times> nat \<times> bytes) list \<Rightarrow> pykey \<Rightarrow> bytes" where
  \<open>group_bytes items recs \<kappa> =
     ''{"fingerprint": "'' @ key_bytes \<kappa> @ ''", "certificates": [''
     @ join_comma (map (\<lambda>r. bstrip (snd (snd r))) (occurrences items recs \<kappa>))
     @ '']}'' @ [CHR 0x0A]\<close>

definition duplicated :: "ijson_items \<Rightarrow> (nat \<times> nat \<times> bytes) list \<Rightarrow> pykey list" where
  "duplicated items recs =
     filter (\<lambda>\<kappa>. 2 \<le> length (occurrences items recs \<kappa>)) (keys_in_order items recs)"

text \<open>
  The inputs the groups are proved for: the file is plain, and every line has an ASCII
  string as its fingerprint, is not blank and does not end in a comma.
\<close>

definition well_formed :: "ijson_items \<Rightarrow> bytes \<Rightarrow> bool" where
  "well_formed items data \<longleftrightarrow>
     plain data \<and>
     (\<forall>r \<in> set (scan_records data 0).
        (\<exists>fb. finger_print_str items (snd (snd r)) = Inr (PyStr (ustr fb)) \<and> ascii fb)
        \<and> bstrip (snd (snd r)) \<noteq> [] \<and> last (bstrip (snd (snd r))) \<noteq> CHR '','')"

text \<open>
  The files of the disk-resident strategy during the scan: the file of every entry with
  the tag \<^verbatim>\<open>EX\<close> holds the group of its fingerprint over the records scanned so far.
\<close>

definition ms_content :: "ijson_items \<Rightarrow> (nat \<times> nat \<times> bytes) list \<Rightarrow> ms_state \<Rightarrow> bool" where
  "ms_content items recs st \<longleftrightarrow>
     (\<forall>\<kappa> mv. dict_lookup (finger_print_map st) \<kappa> = Some mv \<and> mv_tag mv = TAG_EXISTING \<longrightarrow>
        map_of (files st) (mv_path mv) = Some (group_bytes items recs \<kappa>))"

section \<open>The scan\<close>

lemma readline_length: "length (readline bs) \<le> length bs"
  by (induction bs) auto

lemma readline_prefix: "take (length (readline bs)) bs = readline bs"
  by (induction bs) auto

lemma readline_Nil: "readline bs = [] \<longleftrightarrow> bs = []"
  by (cases bs) auto

lemma process_loop_run:
  "process_loop body data start st = run_records body (scan_records data start) st"
proof (induction body data start st rule: process_loop.induct)
  case (1 body data start st)
  show ?case
  proof (cases "readline (drop start data) = []")
    case True
    then show ?thesis
      by (subst process_loop.simps, subst scan_records.simps) simp
  next
    case False
    then show ?thesis
      using 1
      by (subst process_loop.simps, subst scan_records.simps)
         (auto simp: Let_def split: sum.splits)
  qed
qed

lemma scan_contiguous: "contiguous start (scan_records data start)"
proof (induction data start rule: scan_records.induct)
  case (1 data start)
  show ?case
  proof (cases "readline (drop start data) = []")
    case True
    then show ?thesis by (subst scan_records.simps) simp
  next
    case False
    then show ?thesis
      using 1 by (subst scan_records.simps) (simp add: Let_def)
  qed
qed

lemma scan_lines:
  "(s, l, line) \<in> set (scan_records data start) \<Longrightarrow>
     line = readline (drop s data) \<and> line \<noteq> [] \<and> l = length line"
proof (induction data start rule: scan_records.induct)
  case (1 data start)
  show ?case
  proof (cases "readline (drop start data) = []")
    case True
    with 1(2) show ?thesis by (subst (asm) scan_records.simps) simp
  next
    case False
    with 1 show ?thesis
      by (subst (asm) (2) scan_records.simps) (auto simp: Let_def)
  qed
qed

lemma scan_concat:
  "start \<le> length data \<Longrightarrow>
     concat (map (\<lambda>(s, l, line). line) (scan_records data start)) = drop start data"
proof (induction data start rule: scan_records.induct)
  case (1 data start)
  show ?case
  proof (cases "readline (drop start data) = []")
    case True
    then show ?thesis
      by (subst scan_records.simps) (simp add: readline_Nil)
  next
    case False
    let ?line = "readline (drop start data)"
    have le: "start + length ?line \<le> length data"
      using readline_length [of "drop start data"] 1(2) by simp
    have "drop start data = ?line @ drop (length ?line) (drop start data)"
      by (metis append_take_drop_id readline_prefix)
    also have "\<dots> = ?line @ drop (start + length ?line) data"
      by (simp add: add.commute)
    finally have split: "drop start data = ?line @ drop (start + length ?line) data" .
    have "concat (map (\<lambda>(s, l, line). line) (scan_records data (start + length ?line)))
            = drop (start + length ?line) data"
      using 1(1) [OF refl False refl] le by simp
    with False split show ?thesis
      by (subst scan_records.simps) (simp add: Let_def)
  qed
qed

section \<open>The index of the memory-resident strategy\<close>

lemma run_records_snoc:
  "run_records body (rs @ [(s, l, line)]) st =
    (case run_records body rs st of
       Inl x \<Rightarrow> Inl x
     | Inr st' \<Rightarrow> (case body s l line st' of Inl e \<Rightarrow> Inl (e, st') | Inr st'' \<Rightarrow> Inr st''))"
  by (induction rs arbitrary: st) (auto split: sum.splits)

lemma dict_get_lookup: "dict_get m k = dict_lookup m (key_of k)"
  by (induction m) (auto simp: dict_lookup_def)

lemma dict_lookup_set: "dict_lookup (dict_set m k v) = (dict_lookup m)(key_of k \<mapsto> v)"
  by (induction m) (auto simp: dict_lookup_def fun_eq_iff)

lemma dict_lookup_Nil: "dict_lookup [] \<kappa> = None"
  by (simp add: dict_lookup_def)

lemma occurrences_snoc:
  "occurrences items (recs @ [r]) \<kappa> =
     (if record_key items r = Some \<kappa> then occurrences items recs \<kappa> @ [r]
      else occurrences items recs \<kappa>)"
  by (simp add: occurrences_def)

lemma rt_body_lookup:
  assumes "rt_body items s l line m = Inr m'"
  shows "\<exists>k. finger_print_str items line = Inr k \<and>
             dict_lookup m' = (dict_lookup m)(key_of k \<mapsto>
               (case dict_lookup m (key_of k) of None \<Rightarrow> [] | Some a \<Rightarrow> a) @ [(s, l)])"
  using assms
  by (auto simp: rt_body_def dict_get_lookup dict_lookup_set split: sum.splits option.splits)

lemma rt_run_positions:
  "run_records (rt_body items) recs [] = Inr m \<Longrightarrow>
     dict_lookup m \<kappa> =
       (if occurrences items recs \<kappa> = [] then None
        else Some (map location (occurrences items recs \<kappa>)))"
proof (induction recs arbitrary: m \<kappa> rule: rev_induct)
  case Nil
  then show ?case by (simp add: occurrences_def dict_lookup_Nil)
next
  case (snoc r recs)
  obtain s l line where r: "r = (s, l, line)" by (cases r) auto
  from snoc.prems obtain m0 where m0: "run_records (rt_body items) recs [] = Inr m0"
    and step: "rt_body items s l line m0 = Inr m"
    by (auto simp: r run_records_snoc split: sum.splits)
  from rt_body_lookup [OF step] obtain k where k: "finger_print_str items line = Inr k"
    and m: "dict_lookup m = (dict_lookup m0)(key_of k \<mapsto>
               (case dict_lookup m0 (key_of k) of None \<Rightarrow> [] | Some a \<Rightarrow> a) @ [(s, l)])"
    by blast
  have rk: "record_key items (s, l, line) = Some (key_of k)"
    by (simp add: record_key_def k)
  show ?case
    using snoc.IH [OF m0, of \<kappa>] snoc.IH [OF m0, of "key_of k"]
    by (auto simp: m occurrences_snoc rk location_def r)
qed

section \<open>The index and the files of the disk-resident strategy\<close>

lemma digits_value_str_nat: "digits_value (str_nat n) = n"
proof (induction n rule: str_nat.induct)
  case (1 n)
  show ?case
  proof (cases "n < 10")
    case True
    then show ?thesis
      by (subst str_nat.simps) (simp add: digits_value_def)
  next
    case False
    have "n mod 10 < 10" by simp
    then have d: "(48 + n mod 10) mod 256 = 48 + n mod 10"
      by simp
    from False 1 have "digits_value (str_nat (n div 10)) = n div 10" by simp
    with False d show ?thesis
      by (subst str_nat.simps) (simp add: digits_value_def)
  qed
qed

lemma str_nat_inj: "str_nat i = str_nat j \<Longrightarrow> i = j"
  by (metis digits_value_str_nat)

lemma temp_file_inj: "temp_file d i = temp_file d j \<Longrightarrow> i = j"
  by (auto simp: temp_file_def get_file_path_def dest: str_nat_inj)

lemma str_nat_not_Nil: "str_nat n \<noteq> []"
  by (subst str_nat.simps) simp

lemma temp_file_not_Nil: "temp_file d j \<noteq> []"
  by (simp add: temp_file_def get_file_path_def)

lemma utf8_encode_append:
  "utf8_encode (a @ b) =
    (case utf8_encode a of
       Inl e \<Rightarrow> Inl e
     | Inr x \<Rightarrow> (case utf8_encode b of Inl e \<Rightarrow> Inl e | Inr y \<Rightarrow> Inr (x @ y)))"
  by (induction a) (auto split: sum.splits)

lemma utf8_encode_append_Inr:
  "utf8_encode (a @ b) = Inr z \<longleftrightarrow>
     (\<exists>x y. utf8_encode a = Inr x \<and> utf8_encode b = Inr y \<and> z = x @ y)"
  by (auto simp: utf8_encode_append split: sum.splits)

lemma encode_cp_ascii: "(of_char c :: nat) < 128 \<Longrightarrow> encode_cp (of_char c) = Inr [c]"
  by (simp add: encode_cp_def)

lemma utf8_encode_ascii:
  "\<forall>c\<in>set s. (of_char c :: nat) < 128 \<Longrightarrow> utf8_encode (ustr s) = Inr s"
  by (induction s) (simp_all add: ustr_def encode_cp_ascii)

lemma utf8_encode_comma: "utf8_encode (ustr '','') = Inr '',''"
  by (rule utf8_encode_ascii) simp

lemma utf8_encode_close: "utf8_encode (ustr '']}'' @ [0x0A]) = Inr sentinel"
proof -
  have "ustr '']}'' @ [0x0A] = ustr sentinel"
    by (simp add: ustr_def sentinel_def)
  moreover have "utf8_encode (ustr sentinel) = Inr sentinel"
    by (rule utf8_encode_ascii) (simp add: sentinel_def)
  ultimately show ?thesis by simp
qed

lemma ms_append_new:
  assumes "ms_append data fs fp mv line = Inr (fs', e)" and "mv_tag mv = TAG_NEW"
  shows "\<exists>c. fs' = AList.update (mv_path mv) c fs \<and> e = length c \<and> suffix sentinel c"
proof -
  from assms obtain cur first_obj c where
    c: "utf8_encode (header fp @ rstrip first_obj @ ustr '','' @ rstrip cur
                      @ ustr '']}'' @ [0x0A]) = Inr c"
    and r: "fs' = AList.update (mv_path mv) c fs" "e = length c"
    by (auto simp: ms_append_def split: sum.splits)
  have "utf8_encode ((header fp @ rstrip first_obj @ ustr '','' @ rstrip cur)
                      @ (ustr '']}'' @ [0x0A])) = Inr c"
    using c by simp
  then obtain x where "c = x @ sentinel"
    unfolding utf8_encode_append_Inr utf8_encode_close by blast
  then have "suffix sentinel c"
    by (simp add: suffix_def)
  with r show ?thesis by blast
qed

lemma ms_append_existing:
  assumes "ms_append data fs fp mv line = Inr (fs', e)" and "mv_tag mv = TAG_EXISTING"
    and "map_of fs (mv_path mv) = Some old" and "mv_end_offset mv = Some (length old)"
    and "suffix sentinel old"
  shows "\<exists>cur rec. utf8_decode line = Inr cur \<and> utf8_encode (rstrip cur) = Inr rec \<and>
           fs' = AList.update (mv_path mv)
                   (take (length old - 3) old @ '','' @ rec @ sentinel) fs \<and>
           e = length (take (length old - 3) old @ '','' @ rec @ sentinel)"
proof -
  from assms(5) have len: "3 \<le> length old"
    by (auto simp: suffix_def sentinel_def)
  from assms(1-4) len obtain cur new where cur: "utf8_decode line = Inr cur"
    and new: "utf8_encode (ustr '','' @ rstrip cur @ ustr '']}'' @ [0x0A]) = Inr new"
    and r: "fs' = AList.update (mv_path mv) (pwrite old (length old - 3) new) fs"
      "e = length old - 3 + length new"
    by (auto simp: ms_append_def split: sum.splits if_splits)
  from new obtain rec where rec: "utf8_encode (rstrip cur) = Inr rec"
    and n: "new = '','' @ rec @ sentinel"
    unfolding utf8_encode_append_Inr utf8_encode_close utf8_encode_comma by auto
  have "pwrite old (length old - 3) new = take (length old - 3) old @ new"
    using len by (simp add: pwrite_def n sentinel_def)
  with cur rec r n len show ?thesis
    by simp
qed

lemma list_three_cases:
  obtains "xs = []" | x where "xs = [x]" | "2 \<le> length xs"
  by (cases xs rule: list.exhaust; cases "tl xs") auto

lemma entry_None:
  "ms_entry_ok temp st occ None \<Longrightarrow> occ = []"
  by (cases occ rule: list_three_cases) (auto simp: ms_entry_ok_def)

lemma entry_new:
  assumes "ms_entry_ok temp st occ (Some mv)" and "mv_tag mv = TAG_NEW"
  shows "\<exists>r. occ = [r] \<and> mv = \<lparr>mv_start = fst r, mv_length = fst (snd r), mv_tag = TAG_NEW,
            mv_path = [], mv_end_offset = None\<rparr>"
  using assms by (cases occ rule: list_three_cases) (auto simp: ms_entry_ok_def)

lemma entry_existing:
  assumes "ms_entry_ok temp st occ (Some mv)" and "mv_tag mv = TAG_EXISTING"
  shows "2 \<le> length occ \<and> mv_start mv = fst (hd occ) \<and> mv_length mv = fst (snd (hd occ)) \<and>
     (\<exists>j c. 1 \<le> j \<and> j \<le> count st \<and> mv_path mv = temp_file temp j
        \<and> map_of (files st) (mv_path mv) = Some c \<and> mv_end_offset mv = Some (length c)
        \<and> suffix sentinel c)"
  using assms by (cases occ rule: list_three_cases) (auto simp: ms_entry_ok_def)

lemma entry_ok_frame:
  assumes "ms_entry_ok temp st occ e" and "count st \<le> count st'"
    and "\<And>j. 1 \<le> j \<Longrightarrow> j \<le> count st \<Longrightarrow>
            map_of (files st') (temp_file temp j) = map_of (files st) (temp_file temp j)"
  shows "ms_entry_ok temp st' occ e"
proof -
  have "\<exists>mv j c. e = Some mv \<and> mv_start mv = fst (hd occ) \<and> mv_length mv = fst (snd (hd occ))
           \<and> mv_tag mv = TAG_EXISTING \<and> 1 \<le> j \<and> j \<le> count st'
           \<and> mv_path mv = temp_file temp j \<and> map_of (files st') (mv_path mv) = Some c
           \<and> mv_end_offset mv = Some (length c) \<and> suffix sentinel c"
    if "2 \<le> length occ"
  proof -
    from assms(1) that obtain mv j c where h: "e = Some mv" "mv_start mv = fst (hd occ)"
      "mv_length mv = fst (snd (hd occ))" "mv_tag mv = TAG_EXISTING" "1 \<le> j" "j \<le> count st"
      "mv_path mv = temp_file temp j" "map_of (files st) (mv_path mv) = Some c"
      "mv_end_offset mv = Some (length c)" "suffix sentinel c"
      unfolding ms_entry_ok_def by blast
    from h assms(3) [of j] have "map_of (files st') (mv_path mv) = Some c" by simp
    moreover from h assms(2) have "j \<le> count st'" by simp
    ultimately show ?thesis using h by blast
  qed
  with assms(1) show ?thesis
    unfolding ms_entry_ok_def by blast
qed

lemma ms_body_cases:
  assumes "ms_body items data temp s l line st = Inr st'"
  obtains (first) fp where "finger_print_str items line = Inr fp"
      and "dict_lookup (finger_print_map st) (key_of fp) = None"
      and "st' = st\<lparr>finger_print_map := dict_set (finger_print_map st) fp
              \<lparr>mv_start = s, mv_length = l, mv_tag = TAG_NEW, mv_path = [],
               mv_end_offset = None\<rparr>\<rparr>"
  | (second) fp mv fs' e where "finger_print_str items line = Inr fp"
      and "dict_lookup (finger_print_map st) (key_of fp) = Some mv" and "mv_tag mv = TAG_NEW"
      and "ms_append data (files st) fp (mv\<lparr>mv_path := temp_file temp (count st + 1)\<rparr>) line
             = Inr (fs', e)"
      and "st' = \<lparr>finger_print_map = dict_set (finger_print_map st) fp
                    (mv\<lparr>mv_path := temp_file temp (count st + 1), mv_end_offset := Some e,
                        mv_tag := TAG_EXISTING\<rparr>),
                  count = count st + 1, files = fs'\<rparr>"
  | (later) fp mv fs' e where "finger_print_str items line = Inr fp"
      and "dict_lookup (finger_print_map st) (key_of fp) = Some mv"
      and "mv_tag mv = TAG_EXISTING"
      and "ms_append data (files st) fp mv line = Inr (fs', e)"
      and "st' = \<lparr>finger_print_map = dict_set (finger_print_map st) fp
                    (mv\<lparr>mv_end_offset := Some e\<rparr>),
                  count = count st, files = fs'\<rparr>"
proof -
  from assms obtain fp where fp: "finger_print_str items line = Inr fp"
    by (auto simp: ms_body_def split: sum.splits)
  show thesis
  proof (cases "dict_lookup (finger_print_map st) (key_of fp)")
    case None
    with assms fp have "st' = st\<lparr>finger_print_map := dict_set (finger_print_map st) fp
              \<lparr>mv_start = s, mv_length = l, mv_tag = TAG_NEW, mv_path = [],
               mv_end_offset = None\<rparr>\<rparr>"
      by (simp add: ms_body_def dict_get_lookup)
    with fp None show ?thesis by (rule first)
  next
    case (Some mv)
    show ?thesis
    proof (cases "mv_tag mv")
      case TAG_NEW
      with assms fp Some obtain fs' e where
        "ms_append data (files st) fp (mv\<lparr>mv_path := temp_file temp (count st + 1)\<rparr>) line
           = Inr (fs', e)"
        "st' = \<lparr>finger_print_map = dict_set (finger_print_map st) fp
                    (mv\<lparr>mv_path := temp_file temp (count st + 1), mv_end_offset := Some e,
                        mv_tag := TAG_EXISTING\<rparr>),
                  count = count st + 1, files = fs'\<rparr>"
        unfolding temp_file_def
        by (auto simp: ms_body_def dict_get_lookup Let_def split: sum.splits)
      with fp Some TAG_NEW show ?thesis by (rule second)
    next
      case TAG_EXISTING
      with assms fp Some obtain fs' e where
        "ms_append data (files st) fp mv line = Inr (fs', e)"
        "st' = \<lparr>finger_print_map = dict_set (finger_print_map st) fp
                    (mv\<lparr>mv_end_offset := Some e\<rparr>),
                  count = count st, files = fs'\<rparr>"
        by (auto simp: ms_body_def dict_get_lookup split: sum.splits)
      with fp Some TAG_EXISTING show ?thesis by (rule later)
    qed
  qed
qed

lemma finite_dups: "finite {\<kappa>. 2 \<le> length (occurrences items recs \<kappa>)}"
proof -
  have "{\<kappa>. 2 \<le> length (occurrences items recs \<kappa>)}
          \<subseteq> (\<lambda>r. the (record_key items r)) ` set recs"
  proof
    fix \<kappa> assume "\<kappa> \<in> {\<kappa>. 2 \<le> length (occurrences items recs \<kappa>)}"
    then have "occurrences items recs \<kappa> \<noteq> []" by auto
    then obtain r where "r \<in> set recs" "record_key items r = Some \<kappa>"
      by (auto simp: occurrences_def filter_empty_conv)
    then show "\<kappa> \<in> (\<lambda>r. the (record_key items r)) ` set recs"
      by force
  qed
  then show ?thesis by (rule finite_subset) simp
qed

lemma ms_inv_step:
  assumes inv: "ms_inv items temp recs st"
    and step: "ms_body items data temp s l line st = Inr st'"
  shows "ms_inv items temp (recs @ [(s, l, line)]) st'"
  using step
proof (cases rule: ms_body_cases)
  case (first fp)
  let ?k = "key_of fp"
  let ?r = "(s, l, line)"
  have rk: "record_key items ?r = Some ?k"
    by (simp add: record_key_def first(1))
  from inv have ok: "ms_entry_ok temp st (occurrences items recs \<kappa>)
      (dict_lookup (finger_print_map st) \<kappa>)" for \<kappa>
    by (simp add: ms_inv_def)
  from ok [of ?k] first(2) have occ: "occurrences items recs ?k = []"
    by (simp add: entry_None)
  have lk: "dict_lookup (finger_print_map st') = (dict_lookup (finger_print_map st))(?k \<mapsto>
      \<lparr>mv_start = s, mv_length = l, mv_tag = TAG_NEW, mv_path = [], mv_end_offset = None\<rparr>)"
    by (simp add: first(3) dict_lookup_set)
  have cf: "count st' = count st" "files st' = files st"
    by (simp_all add: first(3))
  have 1: "ms_entry_ok temp st' (occurrences items (recs @ [?r]) \<kappa>)
      (dict_lookup (finger_print_map st') \<kappa>)" for \<kappa>
  proof (cases "\<kappa> = ?k")
    case True
    then show ?thesis
      by (simp add: occurrences_snoc rk occ lk ms_entry_ok_def)
  next
    case False
    then have "occurrences items (recs @ [?r]) \<kappa> = occurrences items recs \<kappa>"
      "dict_lookup (finger_print_map st') \<kappa> = dict_lookup (finger_print_map st) \<kappa>"
      by (auto simp: occurrences_snoc rk lk)
    with ok [of \<kappa>] show ?thesis
      by (auto intro: entry_ok_frame simp: cf)
  qed
  have 2: "\<kappa> = \<kappa>'" if "dict_lookup (finger_print_map st') \<kappa> = Some mv"
    "dict_lookup (finger_print_map st') \<kappa>' = Some mv'" "mv_tag mv = TAG_EXISTING"
    "mv_tag mv' = TAG_EXISTING" "mv_path mv = mv_path mv'" for \<kappa> \<kappa>' mv mv'
  proof -
    from that have "\<kappa> \<noteq> ?k" "\<kappa>' \<noteq> ?k"
      by (auto simp: lk)
    with that have "dict_lookup (finger_print_map st) \<kappa> = Some mv"
      "dict_lookup (finger_print_map st) \<kappa>' = Some mv'"
      by (auto simp: lk)
    with inv that show ?thesis
      unfolding ms_inv_def by blast
  qed
  have "{\<kappa>. 2 \<le> length (occurrences items (recs @ [?r]) \<kappa>)}
          = {\<kappa>. 2 \<le> length (occurrences items recs \<kappa>)}"
    by (auto simp: occurrences_snoc rk occ split: if_splits)
  with inv have 3: "count st' = card {\<kappa>. 2 \<le> length (occurrences items (recs @ [?r]) \<kappa>)}"
    by (simp add: ms_inv_def cf)
  from 1 2 3 show ?thesis
    unfolding ms_inv_def by blast
next
  case (second fp mv fs' e)
  let ?k = "key_of fp"
  let ?r = "(s, l, line)"
  let ?p = "temp_file temp (count st + 1)"
  have rk: "record_key items ?r = Some ?k"
    by (simp add: record_key_def second(1))
  from inv have ok: "ms_entry_ok temp st (occurrences items recs \<kappa>)
      (dict_lookup (finger_print_map st) \<kappa>)" for \<kappa>
    by (simp add: ms_inv_def)
  from entry_new [OF _ second(3)] ok [of ?k] second(2) obtain r0 where
    occ: "occurrences items recs ?k = [r0]"
    and mv: "mv = \<lparr>mv_start = fst r0, mv_length = fst (snd r0), mv_tag = TAG_NEW,
            mv_path = [], mv_end_offset = None\<rparr>"
    by metis
  from ms_append_new [OF second(4)] second(3) obtain c where
    c: "fs' = AList.update ?p c (files st)" "e = length c" "suffix sentinel c"
    by auto
  let ?mv' = "mv\<lparr>mv_path := ?p, mv_end_offset := Some e, mv_tag := TAG_EXISTING\<rparr>"
  have lk: "dict_lookup (finger_print_map st') = (dict_lookup (finger_print_map st))(?k \<mapsto> ?mv')"
    by (simp add: second(5) dict_lookup_set)
  have cf: "count st' = count st + 1" "files st' = fs'"
    by (simp_all add: second(5))
  have other: "map_of (files st') (temp_file temp j) = map_of (files st) (temp_file temp j)"
    if "j \<le> count st" for j
  proof -
    from that have "temp_file temp j \<noteq> ?p"
      using temp_file_inj [of temp j "count st + 1"] by auto
    then show ?thesis
      by (simp add: cf c update_conv')
  qed
  have 1: "ms_entry_ok temp st' (occurrences items (recs @ [?r]) \<kappa>)
      (dict_lookup (finger_print_map st') \<kappa>)" for \<kappa>
  proof (cases "\<kappa> = ?k")
    case True
    have "map_of (files st') ?p = Some c"
      by (simp add: cf c update_conv')
    moreover have "\<exists>j\<ge>Suc 0. j \<le> Suc (count st)
        \<and> temp_file temp (Suc (count st)) = temp_file temp j"
      by (rule exI [of _ "Suc (count st)"]) simp
    ultimately show ?thesis
      using True c by (simp add: occurrences_snoc rk occ lk ms_entry_ok_def mv cf)
  next
    case False
    then have "occurrences items (recs @ [?r]) \<kappa> = occurrences items recs \<kappa>"
      "dict_lookup (finger_print_map st') \<kappa> = dict_lookup (finger_print_map st) \<kappa>"
      by (auto simp: occurrences_snoc rk lk)
    with ok [of \<kappa>] other show ?thesis
      by (auto intro: entry_ok_frame simp: cf)
  qed
  have old_path: "mv_path m \<noteq> ?p"
    if "dict_lookup (finger_print_map st) \<kappa> = Some m" "mv_tag m = TAG_EXISTING" for \<kappa> m
  proof -
    from entry_existing [OF _ that(2)] ok [of \<kappa>] that(1) obtain j where
      "j \<le> count st" "mv_path m = temp_file temp j"
      by metis
    then show ?thesis
      using temp_file_inj [of temp j "count st + 1"] by auto
  qed
  have 2: "\<kappa> = \<kappa>'" if h: "dict_lookup (finger_print_map st') \<kappa> = Some m"
    "dict_lookup (finger_print_map st') \<kappa>' = Some m'" "mv_tag m = TAG_EXISTING"
    "mv_tag m' = TAG_EXISTING" "mv_path m = mv_path m'" for \<kappa> \<kappa>' m m'
  proof (cases "\<kappa> = ?k"; cases "\<kappa>' = ?k")
    assume "\<kappa> = ?k" "\<kappa>' = ?k"
    then show ?thesis by simp
  next
    assume a: "\<kappa> = ?k" "\<kappa>' \<noteq> ?k"
    with h have "m = ?mv'" "dict_lookup (finger_print_map st) \<kappa>' = Some m'"
      by (auto simp: lk)
    with old_path [of \<kappa>' m'] h show ?thesis by simp
  next
    assume a: "\<kappa> \<noteq> ?k" "\<kappa>' = ?k"
    with h have "m' = ?mv'" "dict_lookup (finger_print_map st) \<kappa> = Some m"
      by (auto simp: lk)
    with old_path [of \<kappa> m] h show ?thesis by simp
  next
    assume a: "\<kappa> \<noteq> ?k" "\<kappa>' \<noteq> ?k"
    with h have "dict_lookup (finger_print_map st) \<kappa> = Some m"
      "dict_lookup (finger_print_map st) \<kappa>' = Some m'"
      by (auto simp: lk)
    with inv h show ?thesis
      unfolding ms_inv_def by blast
  qed
  have "{\<kappa>. 2 \<le> length (occurrences items (recs @ [?r]) \<kappa>)}
          = insert ?k {\<kappa>. 2 \<le> length (occurrences items recs \<kappa>)}"
    by (auto simp: occurrences_snoc rk occ split: if_splits)
  moreover have "?k \<notin> {\<kappa>. 2 \<le> length (occurrences items recs \<kappa>)}"
    by (simp add: occ)
  ultimately have "card {\<kappa>. 2 \<le> length (occurrences items (recs @ [?r]) \<kappa>)}
      = card {\<kappa>. 2 \<le> length (occurrences items recs \<kappa>)} + 1"
    using finite_dups [of items recs] by simp
  with inv have 3: "count st' = card {\<kappa>. 2 \<le> length (occurrences items (recs @ [?r]) \<kappa>)}"
    by (simp add: ms_inv_def cf)
  from 1 2 3 show ?thesis
    unfolding ms_inv_def by blast
next
  case (later fp mv fs' e)
  let ?k = "key_of fp"
  let ?r = "(s, l, line)"
  have rk: "record_key items ?r = Some ?k"
    by (simp add: record_key_def later(1))
  from inv have ok: "ms_entry_ok temp st (occurrences items recs \<kappa>)
      (dict_lookup (finger_print_map st) \<kappa>)" for \<kappa>
    by (simp add: ms_inv_def)
  from entry_existing [OF _ later(3)] ok [of ?k] later(2) obtain j c where
    occ: "2 \<le> length (occurrences items recs ?k)"
    and mv: "mv_start mv = fst (hd (occurrences items recs ?k))"
      "mv_length mv = fst (snd (hd (occurrences items recs ?k)))"
    and j: "1 \<le> j" "j \<le> count st" "mv_path mv = temp_file temp j"
    and c: "map_of (files st) (mv_path mv) = Some c" "mv_end_offset mv = Some (length c)"
      "suffix sentinel c"
    by metis
  from ms_append_existing [OF later(4) later(3) c] obtain rec where
    new: "fs' = AList.update (mv_path mv) (take (length c - 3) c @ '','' @ rec @ sentinel)
            (files st)"
      "e = length (take (length c - 3) c @ '','' @ rec @ sentinel)"
    by blast
  let ?c' = "take (length c - 3) c @ '','' @ rec @ sentinel"
  let ?mv' = "mv\<lparr>mv_end_offset := Some e\<rparr>"
  have lk: "dict_lookup (finger_print_map st') = (dict_lookup (finger_print_map st))(?k \<mapsto> ?mv')"
    by (simp add: later(5) dict_lookup_set)
  have cf: "count st' = count st" "files st' = fs'"
    by (simp_all add: later(5))
  have 1: "ms_entry_ok temp st' (occurrences items (recs @ [?r]) \<kappa>)
      (dict_lookup (finger_print_map st') \<kappa>)" for \<kappa>
  proof (cases "\<kappa> = ?k")
    case True
    have "map_of (files st') (mv_path mv) = Some ?c'"
      by (simp add: cf new update_conv')
    moreover have "suffix sentinel ?c'"
      by (simp add: suffix_def)
    moreover from occ have "occurrences items recs ?k \<noteq> []" by auto
    ultimately show ?thesis
      using True occ mv j new later(3)
      by (auto simp: occurrences_snoc rk lk ms_entry_ok_def cf)
  next
    case False
    then have eq: "occurrences items (recs @ [?r]) \<kappa> = occurrences items recs \<kappa>"
      "dict_lookup (finger_print_map st') \<kappa> = dict_lookup (finger_print_map st) \<kappa>"
      by (auto simp: occurrences_snoc rk lk)
    show ?thesis
    proof (cases "2 \<le> length (occurrences items recs \<kappa>)")
      case True
      with ok [of \<kappa>] obtain m j' c' where m: "dict_lookup (finger_print_map st) \<kappa> = Some m"
        "mv_start m = fst (hd (occurrences items recs \<kappa>))"
        "mv_length m = fst (snd (hd (occurrences items recs \<kappa>)))"
        "mv_tag m = TAG_EXISTING" "1 \<le> j'" "j' \<le> count st" "mv_path m = temp_file temp j'"
        "map_of (files st) (mv_path m) = Some c'" "mv_end_offset m = Some (length c')"
        "suffix sentinel c'"
        unfolding ms_entry_ok_def by blast
      from inv m(1,4) later(2,3) False have "mv_path m \<noteq> mv_path mv"
        unfolding ms_inv_def by blast
      then have "map_of (files st') (mv_path m) = Some c'"
        using m by (simp add: cf new update_conv')
      with True m show ?thesis
        unfolding eq ms_entry_ok_def cf by auto
    next
      case False
      with ok [of \<kappa>] show ?thesis
        unfolding eq ms_entry_ok_def by auto
    qed
  qed
  have 2: "\<kappa> = \<kappa>'" if h: "dict_lookup (finger_print_map st') \<kappa> = Some m"
    "dict_lookup (finger_print_map st') \<kappa>' = Some m'" "mv_tag m = TAG_EXISTING"
    "mv_tag m' = TAG_EXISTING" "mv_path m = mv_path m'" for \<kappa> \<kappa>' m m'
  proof -
    from h(1) obtain m0 where m0: "dict_lookup (finger_print_map st) \<kappa> = Some m0"
      "mv_tag m0 = mv_tag m" "mv_path m0 = mv_path m"
      using later(2) by (cases "\<kappa> = ?k") (auto simp: lk)
    from h(2) obtain m0' where m0': "dict_lookup (finger_print_map st) \<kappa>' = Some m0'"
      "mv_tag m0' = mv_tag m'" "mv_path m0' = mv_path m'"
      using later(2) by (cases "\<kappa>' = ?k") (auto simp: lk)
    from inv m0 m0' h show ?thesis
      unfolding ms_inv_def by (metis (no_types, lifting))
  qed
  have "{\<kappa>. 2 \<le> length (occurrences items (recs @ [?r]) \<kappa>)}
          = {\<kappa>. 2 \<le> length (occurrences items recs \<kappa>)}"
    using occ by (auto simp: occurrences_snoc rk split: if_splits)
  with inv have 3: "count st' = card {\<kappa>. 2 \<le> length (occurrences items (recs @ [?r]) \<kappa>)}"
    by (simp add: ms_inv_def cf)
  from 1 2 3 show ?thesis
    unfolding ms_inv_def by blast
qed

lemma run_records_append:
  "run_records body (rs @ rs') st =
    (case run_records body rs st of Inl x \<Rightarrow> Inl x | Inr st' \<Rightarrow> run_records body rs' st')"
  by (induction rs arbitrary: st) (auto split: sum.splits)

lemma ms_inv_init: "ms_inv items temp [] \<lparr>finger_print_map = [], count = 0, files = fs\<rparr>"
  by (simp add: ms_inv_def ms_entry_ok_def occurrences_def dict_lookup_Nil)

lemma ms_inv_run:
  "run_records (ms_body items data temp) recs
      \<lparr>finger_print_map = [], count = 0, files = fs\<rparr> = Inr st \<Longrightarrow>
   ms_inv items temp recs st"
proof (induction recs arbitrary: st rule: rev_induct)
  case Nil
  then show ?case using ms_inv_init [of items temp fs] by simp
next
  case (snoc r recs)
  obtain s l line where r: "r = (s, l, line)" by (cases r) auto
  from snoc.prems obtain st0 where
    "run_records (ms_body items data temp) recs
       \<lparr>finger_print_map = [], count = 0, files = fs\<rparr> = Inr st0"
    "ms_body items data temp s l line st0 = Inr st"
    by (auto simp: r run_records_snoc split: sum.splits)
  with snoc.IH show ?case
    by (auto simp: r intro: ms_inv_step)
qed

lemma ms_body_keeps_existing:
  assumes "ms_body items data temp s l line st = Inr st'"
    and "dict_lookup (finger_print_map st) \<kappa> = Some mv" and "mv_tag mv = TAG_EXISTING"
  shows "count st \<le> count st' \<and>
    (\<exists>mv'. dict_lookup (finger_print_map st') \<kappa> = Some mv' \<and> mv_tag mv' = TAG_EXISTING
        \<and> mv_path mv' = mv_path mv)"
  using assms(1)
proof (cases rule: ms_body_cases)
  case (first fp)
  with assms(2,3) show ?thesis
    by (cases "\<kappa> = key_of fp") (auto simp: dict_lookup_set)
next
  case (second fp m fs' e)
  with assms(2,3) show ?thesis
    by (cases "\<kappa> = key_of fp") (auto simp: dict_lookup_set)
next
  case (later fp m fs' e)
  with assms(2,3) show ?thesis
    by (cases "\<kappa> = key_of fp") (auto simp: dict_lookup_set)
qed

lemma ms_body_count_mono:
  assumes "ms_body items data temp s l line st = Inr st'"
  shows "count st \<le> count st'"
  using assms by (cases rule: ms_body_cases) auto

lemma ms_run_keeps_existing:
  "run_records (ms_body items data temp) rest st = Inr st2 \<Longrightarrow>
   dict_lookup (finger_print_map st) \<kappa> = Some mv \<Longrightarrow> mv_tag mv = TAG_EXISTING \<Longrightarrow>
   \<exists>mv2. dict_lookup (finger_print_map st2) \<kappa> = Some mv2 \<and> mv_tag mv2 = TAG_EXISTING
        \<and> mv_path mv2 = mv_path mv"
proof (induction rest arbitrary: st mv)
  case Nil
  then show ?case by simp
next
  case (Cons r rest)
  obtain s l line where r: "r = (s, l, line)" by (cases r) auto
  from Cons.prems(1) obtain st1 where 1: "ms_body items data temp s l line st = Inr st1"
    and 2: "run_records (ms_body items data temp) rest st1 = Inr st2"
    by (auto simp: r split: sum.splits)
  from ms_body_keeps_existing [OF 1 Cons.prems(2,3)] obtain mv1 where
    "dict_lookup (finger_print_map st1) \<kappa> = Some mv1" "mv_tag mv1 = TAG_EXISTING"
    "mv_path mv1 = mv_path mv"
    by blast
  with Cons.IH [OF 2, of mv1] show ?case by auto
qed

lemma ms_run_count_mono:
  "run_records (ms_body items data temp) rest st = Inr st2 \<Longrightarrow> count st \<le> count st2"
proof (induction rest arbitrary: st)
  case Nil
  then show ?case by simp
next
  case (Cons r rest)
  obtain s l line where r: "r = (s, l, line)" by (cases r) auto
  from Cons.prems(1) obtain st1 where 1: "ms_body items data temp s l line st = Inr st1"
    and 2: "run_records (ms_body items data temp) rest st1 = Inr st2"
    by (auto simp: r split: sum.splits)
  from ms_body_count_mono [OF 1] Cons.IH [OF 2] show ?case by simp
qed

lemma ms_inv_tag:
  assumes "ms_inv items temp recs st" and "dict_lookup (finger_print_map st) \<kappa> = Some mv"
  shows "mv_tag mv = TAG_EXISTING \<longleftrightarrow> 2 \<le> length (occurrences items recs \<kappa>)"
proof -
  from assms(1) have "ms_entry_ok temp st (occurrences items recs \<kappa>)
      (dict_lookup (finger_print_map st) \<kappa>)"
    unfolding ms_inv_def by blast
  with assms(2) have ok: "ms_entry_ok temp st (occurrences items recs \<kappa>) (Some mv)"
    by simp
  show ?thesis
  proof
    assume "mv_tag mv = TAG_EXISTING"
    from entry_existing [OF ok this] show "2 \<le> length (occurrences items recs \<kappa>)"
      by blast
  next
    assume "2 \<le> length (occurrences items recs \<kappa>)"
    with ok show "mv_tag mv = TAG_EXISTING"
      unfolding ms_entry_ok_def by auto
  qed
qed

lemma ms_append_frame:
  assumes "ms_append data fs fp mv line = Inr (fs', e)"
  shows "p \<noteq> mv_path mv \<Longrightarrow> map_of fs' p = map_of fs p"
  using assms
  by (auto simp: ms_append_def update_conv' split: sum.splits if_splits option.splits)

lemma str_nat_digits: "c \<in> set (str_nat n) \<Longrightarrow> is_digit c"
proof (induction n rule: str_nat.induct)
  case (1 n)
  show ?case
  proof (cases "n < 10")
    case True
    with 1(2) show ?thesis
      by (subst (asm) str_nat.simps) (simp add: is_digit_def)
  next
    case False
    have "n mod 10 < 10" by simp
    then have d: "(48 + n mod 10) mod 256 = 48 + n mod 10"
      by simp
    from False 1 show ?thesis
      by (subst (asm) (2) str_nat.simps) (auto simp: is_digit_def d)
  qed
qed

lemma glob_match_temp_file: "glob_match temp (temp_file temp j)"
proof -
  let ?name = "str_nat j @ ''.jsonline''"
  have drop: "drop (length temp + 1) (temp_file temp j) = ?name"
    by (simp add: temp_file_def get_file_path_def)
  have "CHR ''/'' \<notin> set (str_nat j)" "CHR ''.'' \<notin> set (str_nat j)"
    using str_nat_digits [of "CHR ''/''" j] str_nat_digits [of "CHR ''.''" j]
    by (auto simp: is_digit_def)
  moreover have "hd ?name = hd (str_nat j)"
    using str_nat_not_Nil [of j] by simp
  moreover have "hd (str_nat j) \<in> set (str_nat j)"
    using str_nat_not_Nil [of j] by simp
  ultimately have "CHR ''/'' \<notin> set ?name" "hd ?name \<noteq> CHR ''.''"
    by auto
  moreover have "suffix ''.jsonline'' ?name"
    by (simp add: suffix_def)
  moreover have "prefix (temp @ ''/'') (temp_file temp j)"
    by (simp add: temp_file_def get_file_path_def)
  ultimately show ?thesis
    unfolding glob_match_def Let_def drop by blast
qed

lemma update_fresh: "k \<notin> fst ` set al \<Longrightarrow> AList.update k v al = al @ [(k, v)]"
  by (induction al) auto

lemma update_keys_present: "k \<in> fst ` set al \<Longrightarrow> map fst (AList.update k v al) = map fst al"
  by (induction al) auto

lemma ms_files_inv_step:
  assumes inv: "ms_inv items temp recs st" and finv: "ms_files_inv temp st"
    and step: "ms_body items data temp s l line st = Inr st'"
  shows "ms_files_inv temp st'"
  using step
proof (cases rule: ms_body_cases)
  case (first fp)
  have "dict_lookup (finger_print_map st') \<kappa> = Some mv" 
    if "dict_lookup (finger_print_map st) \<kappa> = Some mv" for \<kappa> mv
    using that first(2) by (cases "\<kappa> = key_of fp") (auto simp: first(3) dict_lookup_set)
  with finv show ?thesis
    unfolding ms_files_inv_def by (simp add: first(3)) blast
next
  case (second fp mv fs' e)
  let ?p = "temp_file temp (count st + 1)"
  from ms_append_new [OF second(4)] second(3) obtain c where
    c: "fs' = AList.update ?p c (files st)"
    by auto
  have "?p \<notin> set (filter (glob_match temp) (map fst (files st)))"
  proof
    assume "?p \<in> set (filter (glob_match temp) (map fst (files st)))"
    with finv have "?p \<in> set (map (temp_file temp) [1..<Suc (count st)])"
      unfolding ms_files_inv_def by simp
    then obtain j where "j < Suc (count st)" "?p = temp_file temp j"
      by (auto simp del: upt_Suc)
    then have "j \<le> count st" "?p = temp_file temp j"
      by simp_all
    with temp_file_inj [of temp "count st + 1" j] show False by simp
  qed
  then have "?p \<notin> fst ` set (files st)"
    using glob_match_temp_file [of temp "count st + 1"] by auto
  then have "fs' = files st @ [(?p, c)]"
    unfolding c by (rule update_fresh)
  then have 1: "filter (glob_match temp) (map fst (files st'))
      = map (temp_file temp) [1..<Suc (count st')]"
    using finv glob_match_temp_file [of temp "count st + 1"]
    by (simp add: second(5) ms_files_inv_def)
  have keep: "\<exists>mv'. dict_lookup (finger_print_map st') \<kappa> = Some mv' \<and> mv_tag mv' = TAG_EXISTING
        \<and> mv_path mv' = mv_path m"
    if "dict_lookup (finger_print_map st) \<kappa> = Some m" "mv_tag m = TAG_EXISTING" for \<kappa> m
    using ms_body_keeps_existing [OF step that] by blast
  have 2: "\<exists>\<kappa> mv. dict_lookup (finger_print_map st') \<kappa> = Some mv \<and> mv_tag mv = TAG_EXISTING
              \<and> mv_path mv = temp_file temp j" if "1 \<le> j" "j \<le> count st'" for j
  proof (cases "j = count st + 1")
    case True
    have "dict_lookup (finger_print_map st') (key_of fp) =
        Some (mv\<lparr>mv_path := ?p, mv_end_offset := Some e, mv_tag := TAG_EXISTING\<rparr>)"
      by (simp add: second(5) dict_lookup_set)
    with True show ?thesis by force
  next
    case False
    with that have "j \<le> count st" by (simp add: second(5))
    with finv that(1) obtain \<kappa> m where "dict_lookup (finger_print_map st) \<kappa> = Some m"
      "mv_tag m = TAG_EXISTING" "mv_path m = temp_file temp j"
      unfolding ms_files_inv_def by blast
    with keep [of \<kappa> m] show ?thesis by metis
  qed
  from 1 2 show ?thesis
    unfolding ms_files_inv_def by blast
next
  case (later fp mv fs' e)
  from inv have "ms_entry_ok temp st (occurrences items recs (key_of fp))
      (dict_lookup (finger_print_map st) (key_of fp))"
    unfolding ms_inv_def by blast
  with later(2) have "ms_entry_ok temp st (occurrences items recs (key_of fp)) (Some mv)"
    by simp
  from entry_existing [OF this later(3)] obtain c where
    c: "map_of (files st) (mv_path mv) = Some c" "mv_end_offset mv = Some (length c)"
      "suffix sentinel c"
    by blast
  from ms_append_existing [OF later(4) later(3) c] obtain new where
    new: "fs' = AList.update (mv_path mv) new (files st)"
    by blast
  from c(1) have "mv_path mv \<in> fst ` set (files st)"
    by (metis map_of_eq_None_iff option.distinct(1))
  then have "map fst fs' = map fst (files st)"
    unfolding new by (rule update_keys_present)
  with finv have 1: "filter (glob_match temp) (map fst (files st'))
      = map (temp_file temp) [1..<Suc (count st')]"
    by (simp add: later(5) ms_files_inv_def)
  have keep: "\<exists>mv'. dict_lookup (finger_print_map st') \<kappa> = Some mv' \<and> mv_tag mv' = TAG_EXISTING
        \<and> mv_path mv' = mv_path m"
    if "dict_lookup (finger_print_map st) \<kappa> = Some m" "mv_tag m = TAG_EXISTING" for \<kappa> m
    using ms_body_keeps_existing [OF step that] by blast
  have 2: "\<exists>\<kappa> mv. dict_lookup (finger_print_map st') \<kappa> = Some mv \<and> mv_tag mv = TAG_EXISTING
              \<and> mv_path mv = temp_file temp j" if "1 \<le> j" "j \<le> count st'" for j
  proof -
    from that have "j \<le> count st" by (simp add: later(5))
    with finv that(1) obtain \<kappa> m where "dict_lookup (finger_print_map st) \<kappa> = Some m"
      "mv_tag m = TAG_EXISTING" "mv_path m = temp_file temp j"
      unfolding ms_files_inv_def by blast
    with keep [of \<kappa> m] show ?thesis by metis
  qed
  from 1 2 show ?thesis
    unfolding ms_files_inv_def by blast
qed

lemma ms_files_inv_run:
  assumes "filter (glob_match temp) (map fst fs) = []"
  shows "run_records (ms_body items data temp) recs
      \<lparr>finger_print_map = [], count = 0, files = fs\<rparr> = Inr st \<Longrightarrow>
   ms_files_inv temp st"
proof (induction recs arbitrary: st rule: rev_induct)
  case Nil
  with assms show ?case by (auto simp: ms_files_inv_def)
next
  case (snoc r recs)
  obtain s l line where r: "r = (s, l, line)" by (cases r) auto
  from snoc.prems obtain st0 where
    0: "run_records (ms_body items data temp) recs
       \<lparr>finger_print_map = [], count = 0, files = fs\<rparr> = Inr st0"
    and 1: "ms_body items data temp s l line st0 = Inr st"
    by (auto simp: r run_records_snoc split: sum.splits)
  from ms_files_inv_step [OF ms_inv_run [OF 0] snoc.IH [OF 0] 1] show ?case .
qed









lemma rmtree_no_match: "filter (glob_match temp) (map fst (rmtree temp fs)) = []"
  by (auto simp: rmtree_def glob_match_def filter_empty_conv Let_def)

lemma ms_process_data_run:
  assumes "ms_process_data items (Some data) odir fs = Inr st"
  shows "\<exists>fs0. filter (glob_match (temp_path odir)) (map fst fs0) = [] \<and>
     run_records (ms_body items data (temp_path odir)) (scan_records data 0)
       \<lparr>finger_print_map = [], count = 0, files = fs0\<rparr> = Inr st"
  using assms rmtree_no_match
  by (auto simp: ms_process_data_def Let_def process_loop_run clean_and_create_directory_def)

lemma output_not_temp: "\<not> prefix (temp_path odir @ ''/'') (output_path odir)"
  by (auto simp: temp_path_def output_path_def get_file_path_def)

lemma output_no_match: "\<not> glob_match (temp_path odir) (output_path odir)"
  using output_not_temp by (simp add: glob_match_def Let_def)

lemma filter_update_other:
  "\<not> P k \<Longrightarrow> filter P (map fst (AList.update k v al)) = filter P (map fst al)"
  by (induction al) auto

lemma copy_files_cong:
  "(\<And>p. p \<in> set names \<Longrightarrow> map_of fs p = map_of fs' p) \<Longrightarrow>
     copy_files fs names = copy_files fs' names"
  by (induction names) (auto split: option.splits sum.splits)

lemma map_of_rmtree:
  "\<not> prefix (dir @ ''/'') p \<Longrightarrow> map_of (rmtree dir fs) p = map_of fs p"
  by (induction fs) (auto simp: rmtree_def)



lemma rt_run_keys:
  "run_records (rt_body items) recs m = Inr m' \<Longrightarrow> r \<in> set recs \<Longrightarrow> record_key items r \<noteq> None"
proof (induction recs arbitrary: m)
  case Nil
  then show ?case by simp
next
  case (Cons a recs)
  obtain s l line where a: "a = (s, l, line)" by (cases a) auto
  from Cons.prems(1) obtain m1 where 1: "rt_body items s l line m = Inr m1"
    and 2: "run_records (rt_body items) recs m1 = Inr m'"
    by (auto simp: a split: sum.splits)
  from 1 have "record_key items a \<noteq> None"
    by (auto simp: rt_body_def record_key_def a split: sum.splits)
  with Cons.IH [OF 2] Cons.prems(2) show ?case by auto
qed

lemma ms_inv_location:
  assumes "ms_inv items temp recs st"
  shows "(dict_lookup (finger_print_map st) \<kappa> = None \<longleftrightarrow> occurrences items recs \<kappa> = [])
    \<and> (\<forall>mv. dict_lookup (finger_print_map st) \<kappa> = Some mv \<longrightarrow>
          (mv_start mv, mv_length mv) = location (hd (occurrences items recs \<kappa>)))"
proof -
  from assms have ok: "ms_entry_ok temp st (occurrences items recs \<kappa>)
      (dict_lookup (finger_print_map st) \<kappa>)"
    unfolding ms_inv_def by blast
  show ?thesis
  proof (cases "occurrences items recs \<kappa>" rule: list_three_cases)
    case 1
    with ok show ?thesis by (simp add: ms_entry_ok_def)
  next
    case (2 x)
    with ok show ?thesis by (simp add: ms_entry_ok_def location_def)
  next
    case 3
    then have "occurrences items recs \<kappa> \<noteq> []" by auto
    with ok 3 show ?thesis by (auto simp: ms_entry_ok_def location_def)
  qed
qed

lemma occ_aba_A:
  "occurrences demo_items (scan_records aba 0) (KStr (ustr ''A''))
     = [(0, 43, recA @ lf), (86, 43, recA @ lf)]"
  by code_simp


lemma rt_aba_runs:
  "case rt_main demo_items (Some aba) ''out'' [] of Inl x \<Rightarrow> False | Inr fs \<Rightarrow> True"
  by code_simp

lemma ms_aba_runs:
  "case ms_main demo_items id (Some aba) ''out'' [] of Inl x \<Rightarrow> False | Inr fs \<Rightarrow> True"
  by code_simp

lemma run_records_fails:
  "r \<in> set recs \<Longrightarrow> (\<forall>st. \<exists>e. body (fst r) (fst (snd r)) (snd (snd r)) st = Inl e) \<Longrightarrow>
     \<exists>e st'. run_records body recs st = Inl (e, st')"
proof (induction recs arbitrary: st)
  case Nil
  then show ?case by simp
next
  case (Cons a recs)
  obtain s l line where a: "a = (s, l, line)" by (cases a) auto
  show ?case
  proof (cases "body s l line st")
    case (Inl e)
    then show ?thesis by (simp add: a)
  next
    case (Inr st1)
    have "r \<noteq> a"
    proof
      assume "r = a"
      with Cons.prems(2) obtain e where "body s l line st = Inl e"
        by (auto simp: a)
      with Inr show False by simp
    qed
    with Cons.prems have "r \<in> set recs"
      by auto
    from Cons.IH [OF this Cons.prems(2), of st1] Inr show ?thesis
      by (simp add: a)
  qed
qed

lemma run_records_Inl:
  "run_records body recs st0 = Inl (e, st) \<Longrightarrow>
     \<exists>rs. prefix rs recs \<and> run_records body rs st0 = Inr st"
proof (induction recs arbitrary: st0)
  case Nil
  then show ?case by simp
next
  case (Cons a recs)
  obtain s l line where a: "a = (s, l, line)" by (cases a) auto
  show ?case
  proof (cases "body s l line st0")
    case (Inl e')
    with Cons.prems have "st = st0" by (simp add: a)
    then have "prefix [] (a # recs) \<and> run_records body [] st0 = Inr st" by simp
    then show ?thesis by blast
  next
    case (Inr st1)
    with Cons.prems have "run_records body recs st1 = Inl (e, st)"
      by (simp add: a)
    from Cons.IH [OF this] obtain rs where "prefix rs recs" "run_records body rs st1 = Inr st"
      by blast
    with Inr have "prefix (a # rs) (a # recs) \<and> run_records body (a # rs) st0 = Inr st"
      by (simp add: a)
    then show ?thesis by blast
  qed
qed

lemma output_not_temp_file: "output_path odir \<noteq> temp_file (temp_path odir) j"
  by (auto simp: temp_path_def output_path_def get_file_path_def temp_file_def)

lemma ms_body_other_files:
  assumes inv: "ms_inv items temp recs st"
    and step: "ms_body items data temp s l line st = Inr st'"
    and p: "\<forall>j. p \<noteq> temp_file temp j"
  shows "map_of (files st') p = map_of (files st) p"
  using step
proof (cases rule: ms_body_cases)
  case (first fp)
  then show ?thesis by simp
next
  case (second fp mv fs' e)
  from ms_append_frame [OF second(4), of p] p show ?thesis
    by (simp add: second(5))
next
  case (later fp mv fs' e)
  from inv have "ms_entry_ok temp st (occurrences items recs (key_of fp))
      (dict_lookup (finger_print_map st) (key_of fp))"
    unfolding ms_inv_def by blast
  with later(2) have "ms_entry_ok temp st (occurrences items recs (key_of fp)) (Some mv)"
    by simp
  from entry_existing [OF this later(3)] obtain j where "mv_path mv = temp_file temp j"
    by blast
  with ms_append_frame [OF later(4), of p] p show ?thesis
    by (simp add: later(5))
qed

lemma ms_run_other_files:
  assumes p: "\<forall>j. p \<noteq> temp_file temp j"
  shows "run_records (ms_body items data temp) recs
      \<lparr>finger_print_map = [], count = 0, files = fs\<rparr> = Inr st \<Longrightarrow>
   map_of (files st) p = map_of fs p"
proof (induction recs arbitrary: st rule: rev_induct)
  case Nil
  then show ?case by auto
next
  case (snoc r recs)
  obtain s l line where r: "r = (s, l, line)" by (cases r) auto
  from snoc.prems obtain st0 where
    0: "run_records (ms_body items data temp) recs
       \<lparr>finger_print_map = [], count = 0, files = fs\<rparr> = Inr st0"
    and 1: "ms_body items data temp s l line st0 = Inr st"
    by (auto simp: r run_records_snoc split: sum.splits)
  from ms_body_other_files [OF ms_inv_run [OF 0] 1 p] snoc.IH [OF 0] show ?case
    by simp
qed

lemma map_of_rmtree_inside:
  "prefix (dir @ ''/'') p \<Longrightarrow> map_of (rmtree dir fs) p = None"
  by (induction fs) (auto simp: rmtree_def)

lemma output_in_directory:
  "prefix ((if odir = [] then ''output'' else odir) @ ''/'') (output_path odir)"
  by (simp add: output_path_def get_file_path_def)

lemma scan_ax: "scan_records ax 0 = [(0, 43, recA @ lf), (43, 12, recX @ lf)]"
  by code_simp

lemma key_recX: "record_key demo_items (43, 12, recX @ lf) = None"
  by code_simp

lemma map_of_append_right: "p \<notin> fst ` set a \<Longrightarrow> map_of (a @ b) p = map_of b p"
  by (induction a) auto

lemma update_append_right:
  "p \<notin> fst ` set a \<Longrightarrow> AList.update p v (a @ b) = a @ AList.update p v b"
  by (induction a) auto

lemma ms_append_sim:
  assumes "mv_path mv \<notin> fst ` set a"
  shows "ms_append data (a @ tf) fp mv line
           = map_sum id (\<lambda>(f, e). (a @ f, e)) (ms_append data tf fp mv line)"
proof -
  from assms have "map_of (a @ tf) (mv_path mv) = map_of tf (mv_path mv)"
    "AList.update (mv_path mv) v (a @ tf) = a @ AList.update (mv_path mv) v tf" for v
    by (simp_all add: map_of_append_right update_append_right del: map_of_append)
  then show ?thesis
    by (simp add: ms_append_def split: sum.split option.split)
qed

lemma ms_body_sim:
  assumes inv: "ms_inv items temp recs st"
    and a: "\<forall>j. temp_file temp j \<notin> fst ` set a"
  shows "ms_body items data temp s l line (with_files a st)
           = map_sum id (with_files a) (ms_body items data temp s l line st)"
proof (cases "finger_print_str items line")
  case (Inl e)
  then show ?thesis by (simp add: ms_body_def)
next
  case (Inr fp)
  show ?thesis
  proof (cases "dict_lookup (finger_print_map st) (key_of fp)")
    case None
    with Inr show ?thesis
      by (simp add: ms_body_def dict_get_lookup with_files_def)
  next
    case (Some mv)
    show ?thesis
    proof (cases "mv_tag mv")
      case TAG_NEW
      let ?p = "get_file_path temp (str_nat (Suc (count st))) ''.jsonline''"
      have "?p \<notin> fst ` set a"
        using a [rule_format, of "Suc (count st)"] by (simp add: temp_file_def)
      then have "ms_append data (a @ files st) fp (mv\<lparr>mv_path := ?p\<rparr>) line
          = map_sum id (\<lambda>(f, e). (a @ f, e)) (ms_append data (files st) fp (mv\<lparr>mv_path := ?p\<rparr>) line)"
        by (intro ms_append_sim) simp
      with Inr Some TAG_NEW show ?thesis
        by (auto simp: ms_body_def dict_get_lookup with_files_def Let_def split: sum.splits)
    next
      case TAG_EXISTING
      from inv have "ms_entry_ok temp st (occurrences items recs (key_of fp))
          (dict_lookup (finger_print_map st) (key_of fp))"
        unfolding ms_inv_def by blast
      with Some have "ms_entry_ok temp st (occurrences items recs (key_of fp)) (Some mv)"
        by simp
      from entry_existing [OF this TAG_EXISTING] obtain j where "mv_path mv = temp_file temp j"
        by blast
      with a have "mv_path mv \<notin> fst ` set a"
        by simp
      then have "ms_append data (a @ files st) fp mv line
          = map_sum id (\<lambda>(f, e). (a @ f, e)) (ms_append data (files st) fp mv line)"
        by (rule ms_append_sim)
      with Inr Some TAG_EXISTING show ?thesis
        by (auto simp: ms_body_def dict_get_lookup with_files_def split: sum.splits)
    qed
  qed
qed

lemma ms_run_sim:
  assumes a: "\<forall>j. temp_file temp j \<notin> fst ` set a"
  shows "ms_inv items temp done st \<Longrightarrow>
    run_records (ms_body items data temp) recs (with_files a st)
      = map_sum (\<lambda>(e, s). (e, with_files a s)) (with_files a)
          (run_records (ms_body items data temp) recs st)"
proof (induction recs arbitrary: "done" st)
  case Nil
  show ?case by simp
next
  case (Cons r recs)
  obtain s l line where r: "r = (s, l, line)" by (cases r) auto
  note sim = ms_body_sim [OF Cons.prems a, of data s l line]
  show ?case
  proof (cases "ms_body items data temp s l line st")
    case (Inl e)
    with sim show ?thesis by (simp add: r)
  next
    case (Inr st1)
    from ms_inv_step [OF Cons.prems Inr] have "ms_inv items temp (done @ [(s, l, line)]) st1" .
    from Cons.IH [OF this] Inr sim show ?thesis
      by (simp add: r)
  qed
qed

lemma rmtree_keys: "p \<in> fst ` set (rmtree dir fs) \<Longrightarrow> \<not> prefix (dir @ ''/'') p"
  by (auto simp: rmtree_def)

lemma temp_file_prefix: "prefix (temp @ ''/'') (temp_file temp j)"
  by (simp add: temp_file_def get_file_path_def)

lemma ms_process_data_sim:
  "ms_process_data items (Some data) odir fs
     = map_sum (\<lambda>(e, s). (e, with_files (rmtree (temp_path odir)
                   (rmtree (if odir = [] then ''output'' else odir) fs)) s))
         (with_files (rmtree (temp_path odir) (rmtree (if odir = [] then ''output'' else odir) fs)))
         (run_records (ms_body items data (temp_path odir)) (scan_records data 0)
            \<lparr>finger_print_map = [], count = 0, files = []\<rparr>)"
proof -
  let ?temp = "temp_path odir"
  let ?a = "rmtree ?temp (rmtree (if odir = [] then ''output'' else odir) fs)"
  let ?init = "\<lparr>finger_print_map = [], count = 0, files = []\<rparr>"
  have a: "\<forall>j. temp_file ?temp j \<notin> fst ` set ?a"
    using rmtree_keys temp_file_prefix by blast
  have "with_files ?a ?init = \<lparr>finger_print_map = [], count = 0, files = ?a\<rparr>"
    by (simp add: with_files_def)
  with ms_run_sim [OF a ms_inv_init [of items ?temp "[]"], of data "scan_records data 0"]
  show ?thesis
    by (simp add: ms_process_data_def Let_def process_loop_run clean_and_create_directory_def)
qed

lemma ms_merge_result:
  assumes sub: "\<forall>ps. set (glob_order ps) \<subseteq> set ps"
  shows "map_sum id (\<lambda>f. map_of f (output_path odir))
           (ms_merge_and_create_output glob_order odir clear fs)
         = map_sum id Some
             (copy_files fs (glob_order (filter (glob_match (temp_path odir)) (map fst fs))))"
proof -
  let ?temp = "temp_path odir"
  let ?fs1 = "AList.update (output_path odir) [] fs"
  let ?names = "glob_order (filter (glob_match ?temp) (map fst fs))"
  have names: "glob_order (filter (glob_match ?temp) (map fst ?fs1)) = ?names"
    by (simp add: filter_update_other output_no_match)
  from sub have "set ?names \<subseteq> set (filter (glob_match ?temp) (map fst fs))"
    by blast
  then have "p \<noteq> output_path odir" if "p \<in> set ?names" for p
    using that output_no_match [of odir] by auto
  then have cf: "copy_files ?fs1 ?names = copy_files fs ?names"
    by (intro copy_files_cong) (simp add: update_conv')
  show ?thesis
  proof (cases "copy_files fs ?names")
    case (Inl e)
    with cf names show ?thesis
      by (simp add: ms_merge_and_create_output_def Let_def)
  next
    case (Inr out)
    with cf names show ?thesis
      by (simp add: ms_merge_and_create_output_def Let_def clean_directory_def
          map_of_rmtree output_not_temp update_conv')
  qed
qed

lemma ms_merge_sim:
  assumes sub: "\<forall>ps. set (glob_order ps) \<subseteq> set ps"
    and a: "\<forall>p \<in> fst ` set a. \<not> prefix (temp_path odir @ ''/'') p"
  shows "map_sum id (\<lambda>f. map_of f (output_path odir))
           (ms_merge_and_create_output glob_order odir clear (a @ tf))
       = map_sum id (\<lambda>f. map_of f (output_path odir))
           (ms_merge_and_create_output glob_order odir clear tf)"
proof -
  let ?temp = "temp_path odir"
  have "filter (glob_match ?temp) (map fst a) = []"
    using a by (auto simp: filter_empty_conv glob_match_def Let_def)
  then have names: "filter (glob_match ?temp) (map fst (a @ tf))
      = filter (glob_match ?temp) (map fst tf)"
    by simp
  let ?names = "glob_order (filter (glob_match ?temp) (map fst tf))"
  from sub have "set ?names \<subseteq> set (filter (glob_match ?temp) (map fst tf))"
    by blast
  then have "p \<notin> fst ` set a" if "p \<in> set ?names" for p
    using that a by (auto simp: glob_match_def Let_def)
  then have "copy_files (a @ tf) ?names = copy_files tf ?names"
    by (intro copy_files_cong) (simp add: map_of_append_right del: map_of_append)
  then show ?thesis
    unfolding ms_merge_result [OF sub] names by simp
qed

lemma ms_main_sim:
  assumes sub: "\<forall>ps. set (glob_order ps) \<subseteq> set ps"
  shows "outcome odir (ms_main items glob_order input_file odir fs)
       = outcome odir (ms_main items glob_order input_file odir [])"
proof (cases input_file)
  case None
  then show ?thesis
    by (simp add: outcome_def ms_main_def ms_process_data_def)
next
  case (Some data)
  let ?temp = "temp_path odir"
  let ?a = "rmtree ?temp (rmtree (if odir = [] then ''output'' else odir) fs)"
  let ?run = "run_records (ms_body items data ?temp) (scan_records data 0)
            \<lparr>finger_print_map = [], count = 0, files = []\<rparr>"
  have a: "\<forall>p \<in> fst ` set ?a. \<not> prefix (?temp @ ''/'') p"
    using rmtree_keys by blast
  have e: "rmtree ?temp (rmtree (if odir = [] then ''output'' else odir) []) = []"
    by (simp add: rmtree_def)
  have x: "outcome odir (ms_main items glob_order (Some data) odir f)
      = (case ?run of Inl (e, s) \<Rightarrow> Inl e
         | Inr s \<Rightarrow> map_sum id (\<lambda>f. map_of f (output_path odir))
             (ms_merge_and_create_output glob_order odir True
               (rmtree ?temp (rmtree (if odir = [] then ''output'' else odir) f) @ files s)))"
    for f
    unfolding outcome_def ms_main_def ms_process_data_sim [of items data odir f]
    by (cases ?run) (auto simp: with_files_def split: sum.splits)
  show ?thesis
    unfolding Some x [of fs] x [of "[]"] e
    using ms_merge_sim [OF sub a] by (auto split: sum.splits)
qed

lemma rt_main_sim:
  "outcome odir (rt_main items input_file odir fs)
     = outcome odir (rt_main items input_file odir [])"
  by (auto simp: outcome_def rt_main_def rt_write_def rt_process_data_def Let_def
      update_conv' split: sum.splits option.splits)

section \<open>The strategies on plain inputs\<close>

text \<open>
  On a plain input the text-mode read returns the bytes that were asked for, and both
  strategies write the groups of the fingerprints that occur at least twice.
\<close>

lemma ustr_append: "ustr (a @ b) = ustr a @ ustr b"
  by (simp add: ustr_def)

lemma ascii_append: "ascii (a @ b) \<longleftrightarrow> ascii a \<and> ascii b"
  by (simp add: ascii_def)

lemma plain_append: "plain (a @ b) \<longleftrightarrow> plain a \<and> plain b"
  by (simp add: plain_def)

lemma plain_ascii: "plain bs \<Longrightarrow> ascii bs"
  by (induction bs) (auto simp: plain_def ascii_def)

lemma plain_drop: "plain bs \<Longrightarrow> plain (drop n bs)"
  by (auto simp: plain_def list_all_iff dest: in_set_dropD)

lemma plain_take: "plain bs \<Longrightarrow> plain (take n bs)"
  by (auto simp: plain_def list_all_iff dest: in_set_takeD)

lemma utf8_dec_ascii:
  "ascii bs \<Longrightarrow> utf8_dec 0 a lo hi bs = Inr (ustr bs)"
  by (induction bs arbitrary: a lo hi) (auto simp: ascii_def ustr_def Let_def)

lemma utf8_decode_ascii: "ascii bs \<Longrightarrow> utf8_decode bs = Inr (ustr bs)"
  by (simp add: utf8_decode_def utf8_dec_ascii)

lemma universal_newlines_id: "0x0D \<notin> set s \<Longrightarrow> universal_newlines s = s"
  by (induction s rule: universal_newlines.induct) auto

lemma ustr_no_cr: "plain bs \<Longrightarrow> 0x0D \<notin> set (ustr bs)"
proof (induction bs)
  case Nil
  show ?case by (simp add: ustr_def)
next
  case (Cons c bs)
  from Cons.prems have "c \<noteq> CHR 0x0D" "plain bs"
    by (simp_all add: plain_def)
  moreover have "c = CHR 0x0D" if "(of_char c :: nat) = 13"
  proof -
    have "(of_char (CHR 0x0D) :: nat) = 13" by simp
    with that have "(of_char c :: nat) = of_char (CHR 0x0D)" by simp
    then show ?thesis by (simp only: of_char_eq_iff)
  qed
  ultimately show ?case
    using Cons.IH by (auto simp: ustr_def)
qed

lemma text_read_plain:
  assumes "plain data"
  shows "text_read data pos n = Inr (ustr (take n (drop pos data)))"
proof -
  from assms have p: "plain (drop pos data)"
    by (rule plain_drop)
  then have "utf8_decode (drop pos data) = Inr (ustr (drop pos data))"
    by (simp add: utf8_decode_ascii plain_ascii)
  moreover from p have "universal_newlines (ustr (drop pos data)) = ustr (drop pos data)"
    by (intro universal_newlines_id ustr_no_cr)
  moreover have "take n (ustr (drop pos data)) = ustr (take n (drop pos data))"
    by (simp add: ustr_def take_map)
  ultimately show ?thesis
    by (simp add: text_read_def)
qed

lemma rstrip_ustr: "rstrip (ustr bs) = ustr (bstrip bs)"
  by (simp add: rstrip_def bstrip_def ustr_def rev_map dropWhile_map comp_def)

lemma utf8_encode_ustr: "ascii s \<Longrightarrow> utf8_encode (ustr s) = Inr s"
  by (rule utf8_encode_ascii) (simp add: ascii_def list_all_iff)

lemma ascii_bstrip: "ascii bs \<Longrightarrow> ascii (bstrip bs)"
  by (auto simp: ascii_def bstrip_def list_all_iff dest: set_dropWhileD)

lemma join_comma_snoc:
  "join_comma (ps @ [q]) = concat (map (\<lambda>p. p @ '','') ps) @ q"
  by (induction ps rule: join_comma.induct) auto

lemma keys_in_order_snoc:
  "keys_in_order items (recs @ [r]) =
     (case record_key items r of
        None \<Rightarrow> keys_in_order items recs
      | Some \<kappa> \<Rightarrow> if \<kappa> \<in> set (keys_in_order items recs) then keys_in_order items recs
                  else keys_in_order items recs @ [\<kappa>])"
  by (auto simp: keys_in_order_def List.map_filter_def split: option.splits)

lemma keys_in_order_distinct: "distinct (keys_in_order items recs)"
  by (simp add: keys_in_order_def)

lemma keys_in_order_set:
  "\<kappa> \<in> set (keys_in_order items recs) \<longleftrightarrow> occurrences items recs \<kappa> \<noteq> []"
  by (force simp: keys_in_order_def List.map_filter_def occurrences_def filter_empty_conv
      image_iff)

lemma dict_set_present:
  "distinct ks \<Longrightarrow> \<kappa> \<in> set ks \<Longrightarrow> key_of k = \<kappa> \<Longrightarrow> (\<forall>\<kappa>' \<in> set ks. key_of (sc \<kappa>') = \<kappa>') \<Longrightarrow>
     dict_set (map (\<lambda>\<kappa>'. (sc \<kappa>', g \<kappa>')) ks) k v = map (\<lambda>\<kappa>'. (sc \<kappa>', (g(\<kappa> := v)) \<kappa>')) ks"
  by (induction ks) auto

lemma dict_set_absent:
  "key_of k \<notin> set ks \<Longrightarrow> (\<forall>\<kappa>' \<in> set ks. key_of (sc \<kappa>') = \<kappa>') \<Longrightarrow>
     dict_set (map (\<lambda>\<kappa>'. (sc \<kappa>', g \<kappa>')) ks) k v = map (\<lambda>\<kappa>'. (sc \<kappa>', g \<kappa>')) ks @ [(k, v)]"
  by (induction ks) auto

lemma dict_lookup_map:
  "(\<forall>\<kappa>' \<in> set ks. key_of (sc \<kappa>') = \<kappa>') \<Longrightarrow>
     dict_lookup (map (\<lambda>\<kappa>'. (sc \<kappa>', g \<kappa>')) ks) \<kappa> = (if \<kappa> \<in> set ks then Some (g \<kappa>) else None)"
  by (induction ks) (auto simp: dict_lookup_def)

lemma key_of_key_scalar: "key_of (key_scalar \<kappa>) = \<kappa>"
  by (cases \<kappa>) (simp_all add: key_scalar_def)

lemma key_scalar_str: "key_of k = KStr s \<Longrightarrow> k = PyStr s"
  by (cases k) (auto split: if_splits)

lemma rt_run_map:
  assumes str: "\<forall>r \<in> set recs. \<exists>s. finger_print_str items (snd (snd r)) = Inr (PyStr s)"
  shows "run_records (rt_body items) recs []
     = Inr (map (\<lambda>\<kappa>. (key_scalar \<kappa>, map location (occurrences items recs \<kappa>)))
              (keys_in_order items recs))"
  using str
proof (induction recs rule: rev_induct)
  case Nil
  show ?case by (simp add: keys_in_order_def List.map_filter_def)
next
  case (snoc r recs)
  obtain s l line where r: "r = (s, l, line)" by (cases r) auto
  let ?ks = "keys_in_order items recs"
  let ?g = "\<lambda>\<kappa>. map location (occurrences items recs \<kappa>)"
  let ?m = "map (\<lambda>\<kappa>. (key_scalar \<kappa>, ?g \<kappa>)) ?ks"
  from snoc have run: "run_records (rt_body items) recs [] = Inr ?m"
    by simp
  from snoc.prems obtain fs where fs: "finger_print_str items line = Inr (PyStr fs)"
    by (auto simp: r)
  let ?k = "KStr fs"
  have rk: "record_key items (s, l, line) = Some ?k"
    by (simp add: record_key_def fs)
  have sc: "\<forall>\<kappa>' \<in> set ?ks. key_of (key_scalar \<kappa>') = \<kappa>'"
    by (simp add: key_of_key_scalar)
  have occ': "occurrences items (recs @ [(s, l, line)]) \<kappa> =
      (if \<kappa> = ?k then occurrences items recs \<kappa> @ [(s, l, line)] else occurrences items recs \<kappa>)"
    for \<kappa>
    by (auto simp: occurrences_snoc rk)
  show ?case
  proof (cases "?k \<in> set ?ks")
    case True
    then have lk: "dict_get ?m (PyStr fs) = Some (?g ?k)"
      by (simp add: dict_get_lookup dict_lookup_map [OF sc])
    have "rt_body items s l line ?m = Inr (dict_set ?m (PyStr fs) (?g ?k @ [(s, l)]))"
      by (simp add: rt_body_def fs lk)
    also have "dict_set ?m (PyStr fs) (?g ?k @ [(s, l)])
        = map (\<lambda>\<kappa>'. (key_scalar \<kappa>', (?g(?k := ?g ?k @ [(s, l)])) \<kappa>')) ?ks"
      by (rule dict_set_present [OF keys_in_order_distinct True _ sc]) simp
    also have "\<dots> = map (\<lambda>\<kappa>. (key_scalar \<kappa>,
          map location (occurrences items (recs @ [(s, l, line)]) \<kappa>))) ?ks"
      by (auto simp: occ' location_def)
    finally show ?thesis
      using True run by (simp add: r run_records_snoc keys_in_order_snoc rk)
  next
    case False
    then have lk: "dict_get ?m (PyStr fs) = None"
      by (simp add: dict_get_lookup dict_lookup_map [OF sc])
    from False have none: "occurrences items recs ?k = []"
      by (simp add: keys_in_order_set)
    have "rt_body items s l line ?m = Inr (dict_set ?m (PyStr fs) [(s, l)])"
      by (simp add: rt_body_def fs lk)
    also have "dict_set ?m (PyStr fs) [(s, l)] = ?m @ [(PyStr fs, [(s, l)])]"
      by (rule dict_set_absent [OF _ sc]) (use False in simp)
    also have "\<dots> = map (\<lambda>\<kappa>. (key_scalar \<kappa>,
          map location (occurrences items (recs @ [(s, l, line)]) \<kappa>))) (?ks @ [?k])"
      using False by (auto simp: occ' none location_def key_scalar_def)
    finally show ?thesis
      using False run by (simp add: r run_records_snoc keys_in_order_snoc rk)
  qed
qed

lemma scan_record_bytes:
  assumes "r \<in> set (scan_records data 0)"
  shows "take (fst (snd r)) (drop (fst r) data) = snd (snd r)"
proof -
  obtain s l line where r: "r = (s, l, line)" by (cases r) auto
  from scan_lines [of s l line data 0] assms
  have "line = readline (drop s data)" "l = length line"
    by (simp_all add: r)
  then show ?thesis
    using readline_prefix [of "drop s data"] by (simp add: r)
qed

lemma rt_read_positions_plain:
  assumes "plain data"
  shows "set rs \<subseteq> set (scan_records data 0) \<Longrightarrow>
    rt_read_positions data acc (map location rs)
      = Inr (acc @ concat (map (\<lambda>r. ustr (bstrip (snd (snd r))) @ ustr '','') rs))"
proof (induction rs arbitrary: acc)
  case Nil
  show ?case by simp
next
  case (Cons r rs)
  obtain s l line where r: "r = (s, l, line)" by (cases r) auto
  from Cons.prems scan_record_bytes [of r data] have "take l (drop s data) = line"
    by (simp add: r)
  with assms have "text_read data s l = Inr (ustr line)"
    by (simp add: text_read_plain)
  with Cons show ?case
    by (simp add: r location_def rstrip_ustr)
qed

lemma rstrip_comma_last:
  assumes "q \<noteq> []" and "last q \<noteq> CHR '',''"
  shows "rstrip_comma (x @ ustr q @ ustr '','') = x @ ustr q"
proof -
  from assms(1) obtain q' c where q: "q = q' @ [c]"
    by (cases q rule: rev_cases) auto
  with assms(2) have "c \<noteq> CHR '',''" by simp
  moreover have "(of_char (CHR '','') :: nat) = 0x2C" by simp
  ultimately have "(of_char c :: nat) \<noteq> 0x2C"
    by (metis of_char_eq_iff)
  then show ?thesis
    by (simp add: rstrip_comma_def q ustr_def)
qed

lemma ascii_concat: "ascii (concat xs) \<longleftrightarrow> (\<forall>x \<in> set xs. ascii x)"
  by (induction xs) (simp_all add: ascii_append, simp add: ascii_def)

lemma rt_group_plain:
  assumes "plain data" and "set rs \<subseteq> set (scan_records data 0)" and "rs \<noteq> []"
    and "\<forall>r \<in> set rs. bstrip (snd (snd r)) \<noteq> [] \<and> last (bstrip (snd (snd r))) \<noteq> CHR '',''"
    and "ascii fb"
  shows \<open>rt_group data (PyStr (ustr fb)) (map location rs)
     = Inr (''{"fingerprint": "'' @ fb @ ''", "certificates": [''
            @ join_comma (map (\<lambda>r. bstrip (snd (snd r))) rs) @ '']}'' @ [CHR 0x0A])\<close>
proof -
  from assms(3) obtain rs' q where rs: "rs = rs' @ [q]"
    by (cases rs rule: rev_cases) auto
  let ?p = "\<lambda>r. bstrip (snd (snd r))"
  let ?h = \<open>''{"fingerprint": "'' @ fb @ ''", "certificates": [''\<close>
  let ?x = "?h @ concat (map (\<lambda>r. ?p r @ '','') rs')"
  have hdr: "header (PyStr (ustr fb)) = ustr ?h"
    by (simp add: header_def ustr_def)
  have "concat (map (\<lambda>r. ustr (?p r) @ ustr '','') rs')
      = ustr (concat (map (\<lambda>r. ?p r @ '','') rs'))"
    by (induction rs') (simp_all add: ustr_def)
  then have tx: "header (PyStr (ustr fb)) @ concat (map (\<lambda>r. ustr (?p r) @ ustr '','') rs)
      = ustr ?x @ ustr (?p q) @ ustr '',''"
    by (simp add: header_def rs ustr_def)
  from assms(4) have "?p q \<noteq> []" "last (?p q) \<noteq> CHR '',''"
    by (simp_all add: rs)
  then have strip: "rstrip_comma (ustr ?x @ ustr (?p q) @ ustr '','') = ustr ?x @ ustr (?p q)"
    by (rule rstrip_comma_last)
  have asc_p: "ascii (?p r)" if "r \<in> set rs" for r
  proof -
    from that assms(2) scan_record_bytes [of r data]
    have "snd (snd r) = take (fst (snd r)) (drop (fst r) data)"
      by auto
    with assms(1) have "plain (snd (snd r))"
      by (metis plain_drop plain_take)
    then show ?thesis
      by (simp add: plain_ascii ascii_bstrip)
  qed
  have "ascii '',''"
    by (simp add: ascii_def)
  with asc_p have "ascii (concat (map (\<lambda>r. ?p r @ '','') rs'))"
    by (simp add: ascii_concat ascii_append rs)
  moreover have "ascii ?h"
    using assms(5) by (simp add: ascii_append) (simp add: ascii_def)
  moreover have "ascii (?p q)"
    using asc_p [of q] by (simp add: rs)
  ultimately have asc: "ascii (?x @ ?p q @ '']}'' @ [CHR 0x0A])"
    by (simp add: ascii_append) (simp add: ascii_def)
  have "ustr ?x @ ustr (?p q) @ ustr '']}'' @ [0x0A] = ustr (?x @ ?p q @ '']}'' @ [CHR 0x0A])"
    by (simp add: ustr_def)
  with asc have enc: "utf8_encode (ustr ?x @ ustr (?p q) @ ustr '']}'' @ [0x0A])
      = Inr (?x @ ?p q @ '']}'' @ [CHR 0x0A])"
    by (simp only: utf8_encode_ustr)
  have "rt_read_positions data (header (PyStr (ustr fb))) (map location rs)
      = Inr (ustr ?x @ ustr (?p q) @ ustr '','')"
    using rt_read_positions_plain [OF assms(1,2)] tx by simp
  then have "rt_group data (PyStr (ustr fb)) (map location rs)
      = Inr (?x @ ?p q @ '']}'' @ [CHR 0x0A])"
    using strip enc by (simp add: rt_group_def)
  then show ?thesis
    by (simp add: rs join_comma_snoc comp_def)
qed

lemma key_bytes_ustr: "key_bytes (KStr (ustr fb)) = fb"
  by (simp add: key_bytes_def ustr_def comp_def)

lemma well_formed_key:
  assumes "well_formed items data" and "occurrences items (scan_records data 0) \<kappa> \<noteq> []"
  shows "\<exists>fb. \<kappa> = KStr (ustr fb) \<and> ascii fb"
proof -
  from assms(2) obtain r where r: "r \<in> set (scan_records data 0)" "record_key items r = Some \<kappa>"
    by (auto simp: occurrences_def filter_empty_conv)
  with assms(1) obtain fb where "finger_print_str items (snd (snd r)) = Inr (PyStr (ustr fb))"
    "ascii fb"
    unfolding well_formed_def by blast
  with r(2) show ?thesis
    by (auto simp: record_key_def)
qed

lemma rt_write_items_plain:
  assumes wf: "well_formed items data"
  shows "rt_write_items data
      (map (\<lambda>\<kappa>. (key_scalar \<kappa>, map location (occurrences items (scan_records data 0) \<kappa>))) ks)
    = Inr (map (\<lambda>\<kappa>. (key_scalar \<kappa>, group_bytes items (scan_records data 0) \<kappa>))
             (filter (\<lambda>\<kappa>. 2 \<le> length (occurrences items (scan_records data 0) \<kappa>)) ks))"
proof (induction ks)
  case Nil
  show ?case by simp
next
  case (Cons \<kappa> ks)
  let ?recs = "scan_records data 0"
  let ?occ = "occurrences items ?recs \<kappa>"
  show ?case
  proof (cases "2 \<le> length ?occ")
    case True
    then have ne: "?occ \<noteq> []" by auto
    from well_formed_key [OF wf ne] obtain fb where fb: "\<kappa> = KStr (ustr fb)" "ascii fb"
      by blast
    have sub: "set ?occ \<subseteq> set ?recs"
      by (auto simp: occurrences_def)
    with wf have ok: "\<forall>r \<in> set ?occ. bstrip (snd (snd r)) \<noteq> []
        \<and> last (bstrip (snd (snd r))) \<noteq> CHR '',''"
      unfolding well_formed_def by blast
    from wf have "plain data"
      by (simp add: well_formed_def)
    from rt_group_plain [OF this sub ne ok fb(2)]
    have "rt_group data (key_scalar \<kappa>) (map location ?occ) = Inr (group_bytes items ?recs \<kappa>)"
      by (simp add: fb(1) key_scalar_def group_bytes_def key_bytes_ustr)
    with True Cons show ?thesis
      by simp
  next
    case False
    with Cons show ?thesis
      by simp
  qed
qed

text \<open>
  The memory-resident strategy on a well-formed input: the output file is the groups of
  the duplicated fingerprints, in the order the fingerprints were first seen.
\<close>

theorem rt_main_plain:
  assumes "well_formed items data"
  shows "rt_main items (Some data) odir fs =
     Inr (AList.update (output_path odir)
            (concat (map (group_bytes items (scan_records data 0))
                       (duplicated items (scan_records data 0))))
            (clean_and_create_directory (if odir = [] then ''output'' else odir) fs))"
proof -
  let ?recs = "scan_records data 0"
  from assms have "\<forall>r \<in> set ?recs. \<exists>s. finger_print_str items (snd (snd r)) = Inr (PyStr s)"
    unfolding well_formed_def by blast
  from rt_run_map [OF this]
  have "rt_process_data items (Some data)
      = Inr (map (\<lambda>\<kappa>. (key_scalar \<kappa>, map location (occurrences items ?recs \<kappa>)))
              (keys_in_order items ?recs))"
    by (simp add: rt_process_data_def process_loop_run)
  then show ?thesis
    using rt_write_items_plain [OF assms, of "keys_in_order items ?recs"]
    by (simp add: rt_main_def rt_write_def Let_def duplicated_def comp_def)
qed

lemma join_comma_snoc2: "ps \<noteq> [] \<Longrightarrow> join_comma (ps @ [q]) = join_comma ps @ '','' @ q"
  by (induction ps rule: join_comma.induct) auto

lemma ms_append_new_plain:
  assumes "plain data" and "mv_tag mv = TAG_NEW"
    and "take (mv_length mv) (drop (mv_start mv) data) = line0"
    and "plain line" and "ascii fb"
  shows \<open>ms_append data fs (PyStr (ustr fb)) mv line =
     Inr (AList.update (mv_path mv)
            (''{"fingerprint": "'' @ fb @ ''", "certificates": ['' @ bstrip line0 @ '',''
             @ bstrip line @ '']}'' @ [CHR 0x0A]) fs,
          length (''{"fingerprint": "'' @ fb @ ''", "certificates": ['' @ bstrip line0 @ '',''
             @ bstrip line @ '']}'' @ [CHR 0x0A]))\<close>
proof -
  let ?c = \<open>''{"fingerprint": "'' @ fb @ ''", "certificates": ['' @ bstrip line0 @ '',''
             @ bstrip line @ '']}'' @ [CHR 0x0A]\<close>
  from assms(4) have dec: "utf8_decode line = Inr (ustr line)"
    by (simp add: utf8_decode_ascii plain_ascii)
  from assms(1,3) have rd: "text_read data (mv_start mv) (mv_length mv) = Inr (ustr line0)"
    by (simp add: text_read_plain)
  from assms(1,3) have "plain line0"
    by (metis plain_drop plain_take)
  with assms(4) have "ascii (bstrip line0)" "ascii (bstrip line)"
    by (simp_all add: plain_ascii ascii_bstrip)
  with assms(5) have "ascii ?c"
    by (simp add: ascii_append) (simp add: ascii_def)
  then have enc: "utf8_encode (ustr ?c) = Inr ?c"
    by (rule utf8_encode_ustr)
  have "header (PyStr (ustr fb)) @ rstrip (ustr line0) @ ustr '','' @ rstrip (ustr line)
      @ ustr '']}'' @ [0x0A] = ustr ?c"
    by (simp add: header_def rstrip_ustr) (simp add: ustr_def)
  with enc show ?thesis
    by (simp add: ms_append_def dec rd assms(2))
qed

lemma ms_append_existing_plain:
  assumes "mv_tag mv = TAG_EXISTING" and "map_of fs (mv_path mv) = Some old"
    and "mv_end_offset mv = Some (length old)" and "suffix sentinel old" and "plain line"
  shows "ms_append data fs fp mv line =
     Inr (AList.update (mv_path mv) (take (length old - 3) old @ '','' @ bstrip line @ sentinel) fs,
          length (take (length old - 3) old @ '','' @ bstrip line @ sentinel))"
proof -
  from assms(4) have len: "3 \<le> length old"
    by (auto simp: suffix_def sentinel_def)
  from assms(5) have dec: "utf8_decode line = Inr (ustr line)"
    by (simp add: utf8_decode_ascii plain_ascii)
  let ?new = "'','' @ bstrip line @ sentinel"
  from assms(5) have "ascii (bstrip line)"
    by (simp add: plain_ascii ascii_bstrip)
  then have "ascii ?new"
    by (simp add: ascii_append) (simp add: ascii_def sentinel_def)
  then have "utf8_encode (ustr ?new) = Inr ?new"
    by (rule utf8_encode_ustr)
  moreover have "ustr '','' @ rstrip (ustr line) @ ustr '']}'' @ [0x0A] = ustr ?new"
    by (simp add: rstrip_ustr) (simp add: ustr_def sentinel_def)
  ultimately have enc: "utf8_encode (ustr '','' @ rstrip (ustr line) @ ustr '']}'' @ [0x0A])
      = Inr ?new"
    by simp
  have "pwrite old (length old - 3) ?new = take (length old - 3) old @ ?new"
    using len by (simp add: pwrite_def sentinel_def)
  with len show ?thesis
    using assms(1-3) by (simp add: ms_append_def dec enc)
qed

lemma group_bytes_two:
  assumes "occurrences items recs \<kappa> = [r0, r]"
  shows \<open>group_bytes items recs \<kappa> =
     ''{"fingerprint": "'' @ key_bytes \<kappa> @ ''", "certificates": ['' @ bstrip (snd (snd r0))
       @ '','' @ bstrip (snd (snd r)) @ '']}'' @ [CHR 0x0A]\<close>
  by (simp add: group_bytes_def assms)

lemma take_without_sentinel: "take (length (x @ sentinel) - 3) (x @ sentinel) = x"
  by (simp add: sentinel_def)

lemma group_bytes_snoc:
  assumes "occurrences items recs' \<kappa> = occurrences items recs \<kappa> @ [r]"
    and "occurrences items recs \<kappa> \<noteq> []"
  shows "group_bytes items recs' \<kappa> =
     take (length (group_bytes items recs \<kappa>) - 3) (group_bytes items recs \<kappa>)
       @ '','' @ bstrip (snd (snd r)) @ sentinel"
proof -
  define x where \<open>x = ''{"fingerprint": "'' @ key_bytes \<kappa> @ ''", "certificates": [''
    @ join_comma (map (\<lambda>r. bstrip (snd (snd r))) (occurrences items recs \<kappa>))\<close>
  have g: "group_bytes items recs \<kappa> = x @ sentinel"
    by (simp add: group_bytes_def sentinel_def x_def)
  have "group_bytes items recs' \<kappa> = x @ '','' @ bstrip (snd (snd r)) @ sentinel"
    using assms(2) by (simp add: group_bytes_def assms(1) join_comma_snoc2 sentinel_def x_def)
  then show ?thesis
    unfolding g take_without_sentinel .
qed

lemma ms_step_plain:
  assumes wf: "well_formed items data"
    and inv: "ms_inv items temp recs st" and cont: "ms_content items recs st"
    and recs: "set recs \<subseteq> set (scan_records data 0)"
    and r: "(s, l, line) \<in> set (scan_records data 0)"
  shows "\<exists>st'. ms_body items data temp s l line st = Inr st'
           \<and> ms_content items (recs @ [(s, l, line)]) st'"
proof -
  let ?r = "(s, l, line)"
  let ?recs' = "recs @ [?r]"
  from wf have pd: "plain data"
    by (simp add: well_formed_def)
  from wf r obtain fb where fp: "finger_print_str items line = Inr (PyStr (ustr fb))"
    and fb: "ascii fb"
    unfolding well_formed_def by fastforce
  let ?k = "KStr (ustr fb)"
  have rk: "record_key items ?r = Some ?k"
    by (simp add: record_key_def fp)
  have occ': "occurrences items ?recs' \<kappa> =
      (if \<kappa> = ?k then occurrences items recs \<kappa> @ [?r] else occurrences items recs \<kappa>)" for \<kappa>
    by (auto simp: occurrences_snoc rk)
  from scan_record_bytes [OF r] have "line = take l (drop s data)"
    by simp
  with pd have pl: "plain line"
    by (metis plain_drop plain_take)
  from inv have ok: "ms_entry_ok temp st (occurrences items recs \<kappa>)
      (dict_lookup (finger_print_map st) \<kappa>)" for \<kappa>
    by (simp add: ms_inv_def)
  have other_group: "group_bytes items ?recs' \<kappa> = group_bytes items recs \<kappa>" if "\<kappa> \<noteq> ?k" for \<kappa>
    using that by (simp add: group_bytes_def occ')
  show ?thesis
  proof (cases "dict_lookup (finger_print_map st) ?k")
    case None
    let ?st' = "st\<lparr>finger_print_map := dict_set (finger_print_map st) (PyStr (ustr fb))
              \<lparr>mv_start = s, mv_length = l, mv_tag = TAG_NEW, mv_path = [],
               mv_end_offset = None\<rparr>\<rparr>"
    from None have step: "ms_body items data temp s l line st = Inr ?st'"
      by (simp add: ms_body_def fp dict_get_lookup)
    have "ms_content items ?recs' ?st'"
      unfolding ms_content_def
    proof (intro allI impI)
      fix \<kappa> mv
      assume a: "dict_lookup (finger_print_map ?st') \<kappa> = Some mv \<and> mv_tag mv = TAG_EXISTING"
      then have "\<kappa> \<noteq> ?k"
        by (auto simp: dict_lookup_set)
      with a have "dict_lookup (finger_print_map st) \<kappa> = Some mv"
        by (simp add: dict_lookup_set)
      with cont a have "map_of (files st) (mv_path mv) = Some (group_bytes items recs \<kappa>)"
        unfolding ms_content_def by blast
      with \<open>\<kappa> \<noteq> ?k\<close> show "map_of (files ?st') (mv_path mv) = Some (group_bytes items ?recs' \<kappa>)"
        by (simp add: other_group)
    qed
    with step show ?thesis by blast
  next
    case (Some mv)
    show ?thesis
    proof (cases "mv_tag mv")
      case TAG_NEW
      from entry_new [OF _ TAG_NEW] ok [of ?k] Some obtain r0 where
        occ: "occurrences items recs ?k = [r0]"
        and mv: "mv = \<lparr>mv_start = fst r0, mv_length = fst (snd r0), mv_tag = TAG_NEW,
            mv_path = [], mv_end_offset = None\<rparr>"
        by metis
      from occ have "r0 \<in> set recs"
        by (metis filter_is_subset list.set_intros(1) occurrences_def subsetD)
      with recs have "r0 \<in> set (scan_records data 0)" by blast
      from scan_record_bytes [OF this]
      have rd: "take (fst (snd r0)) (drop (fst r0) data) = snd (snd r0)" .
      let ?p = "get_file_path temp (str_nat (Suc (count st))) ''.jsonline''"
      let ?mv1 = "mv\<lparr>mv_path := ?p\<rparr>"
      let ?c = "group_bytes items ?recs' ?k"
      have c: \<open>?c = ''{"fingerprint": "'' @ fb @ ''", "certificates": ['' @ bstrip (snd (snd r0))
          @ '','' @ bstrip line @ '']}'' @ [CHR 0x0A]\<close>
        using group_bytes_two [of items ?recs' ?k r0 ?r]
        by (simp add: occ' occ key_bytes_ustr)
      have "ms_append data (files st) (PyStr (ustr fb)) ?mv1 line
          = Inr (AList.update ?p ?c (files st), length ?c)"
        using ms_append_new_plain [OF pd _ _ pl fb, of ?mv1 "snd (snd r0)" "files st"]
        by (simp add: mv rd c)
      then have step: "ms_body items data temp s l line st =
          Inr \<lparr>finger_print_map = dict_set (finger_print_map st) (PyStr (ustr fb))
                  (?mv1\<lparr>mv_end_offset := Some (length ?c), mv_tag := TAG_EXISTING\<rparr>),
               count = Suc (count st), files = AList.update ?p ?c (files st)\<rparr>"
        (is "_ = Inr ?st'")
        using Some TAG_NEW by (simp add: ms_body_def fp dict_get_lookup Let_def)
      have p: "?p = temp_file temp (Suc (count st))"
        by (simp add: temp_file_def)
      have "ms_content items ?recs' ?st'"
        unfolding ms_content_def
      proof (intro allI impI)
        fix \<kappa> m
        assume a: "dict_lookup (finger_print_map ?st') \<kappa> = Some m \<and> mv_tag m = TAG_EXISTING"
        show "map_of (files ?st') (mv_path m) = Some (group_bytes items ?recs' \<kappa>)"
        proof (cases "\<kappa> = ?k")
          case True
          with a show ?thesis
            by (auto simp: dict_lookup_set update_conv')
        next
          case False
          with a have m: "dict_lookup (finger_print_map st) \<kappa> = Some m" "mv_tag m = TAG_EXISTING"
            by (simp_all add: dict_lookup_set)
          from entry_existing [OF _ m(2)] ok [of \<kappa>] m(1) obtain j where
            "j \<le> count st" "mv_path m = temp_file temp j"
            by metis
          with temp_file_inj [of temp j "Suc (count st)"] have "mv_path m \<noteq> ?p"
            by (auto simp: p)
          moreover from cont m have "map_of (files st) (mv_path m) = Some (group_bytes items recs \<kappa>)"
            unfolding ms_content_def by blast
          ultimately show ?thesis
            using False by (simp add: update_conv' other_group)
        qed
      qed
      with step show ?thesis by blast
    next
      case TAG_EXISTING
      from entry_existing [OF _ TAG_EXISTING] ok [of ?k] Some obtain c where
        occ: "2 \<le> length (occurrences items recs ?k)"
        and c: "map_of (files st) (mv_path mv) = Some c" "mv_end_offset mv = Some (length c)"
          "suffix sentinel c"
        by metis
      from cont Some TAG_EXISTING c(1) have cg: "c = group_bytes items recs ?k"
        unfolding ms_content_def by fastforce
      from occ have ne: "occurrences items recs ?k \<noteq> []" by auto
      let ?new = "take (length c - 3) c @ '','' @ bstrip line @ sentinel"
      have new: "?new = group_bytes items ?recs' ?k"
        using group_bytes_snoc [of items ?recs' ?k recs ?r] ne
        by (simp add: occ' cg)
      from ms_append_existing_plain [OF TAG_EXISTING c pl]
      have "ms_append data (files st) (PyStr (ustr fb)) mv line
          = Inr (AList.update (mv_path mv) ?new (files st), length ?new)" .
      then have step: "ms_body items data temp s l line st =
          Inr \<lparr>finger_print_map = dict_set (finger_print_map st) (PyStr (ustr fb))
                  (mv\<lparr>mv_end_offset := Some (length ?new)\<rparr>),
               count = count st, files = AList.update (mv_path mv) ?new (files st)\<rparr>"
        (is "_ = Inr ?st'")
        using Some TAG_EXISTING by (simp add: ms_body_def fp dict_get_lookup)
      have "ms_content items ?recs' ?st'"
        unfolding ms_content_def
      proof (intro allI impI)
        fix \<kappa> m
        assume a: "dict_lookup (finger_print_map ?st') \<kappa> = Some m \<and> mv_tag m = TAG_EXISTING"
        show "map_of (files ?st') (mv_path m) = Some (group_bytes items ?recs' \<kappa>)"
        proof (cases "\<kappa> = ?k")
          case True
          with a new show ?thesis
            by (auto simp: dict_lookup_set update_conv')
        next
          case False
          with a have m: "dict_lookup (finger_print_map st) \<kappa> = Some m" "mv_tag m = TAG_EXISTING"
            by (simp_all add: dict_lookup_set)
          from inv m Some TAG_EXISTING False have "mv_path m \<noteq> mv_path mv"
            unfolding ms_inv_def by blast
          moreover from cont m have "map_of (files st) (mv_path m) = Some (group_bytes items recs \<kappa>)"
            unfolding ms_content_def by blast
          ultimately show ?thesis
            using False by (simp add: update_conv' other_group)
        qed
      qed
      with step show ?thesis by blast
    qed
  qed
qed

lemma ms_run_plain:
  assumes wf: "well_formed items data"
  shows "set recs \<subseteq> set (scan_records data 0) \<Longrightarrow>
     \<exists>st. run_records (ms_body items data temp) recs
            \<lparr>finger_print_map = [], count = 0, files = fs\<rparr> = Inr st
          \<and> ms_content items recs st"
proof (induction recs rule: rev_induct)
  case Nil
  show ?case by (simp add: ms_content_def dict_lookup_Nil)
next
  case (snoc r recs)
  obtain s l line where r: "r = (s, l, line)" by (cases r) auto
  from snoc obtain st where
    run: "run_records (ms_body items data temp) recs
            \<lparr>finger_print_map = [], count = 0, files = fs\<rparr> = Inr st"
    and cont: "ms_content items recs st"
    by auto
  from snoc.prems have "set recs \<subseteq> set (scan_records data 0)"
    "(s, l, line) \<in> set (scan_records data 0)"
    by (simp_all add: r)
  from ms_step_plain [OF wf ms_inv_run [OF run] cont this] run show ?case
    by (auto simp: r run_records_snoc)
qed

lemma ex_list_all2: "(\<forall>x \<in> set xs. \<exists>y. P x y) \<Longrightarrow> \<exists>ys. list_all2 P xs ys"
proof (induction xs)
  case Nil
  show ?case by simp
next
  case (Cons x xs)
  then obtain y ys where "P x y" "list_all2 P xs ys"
    by auto
  then have "list_all2 P (x # xs) (y # ys)" by simp
  then show ?case by blast
qed

lemma copy_files_groups:
  "list_all2 (\<lambda>p \<kappa>. map_of fs p = Some (g \<kappa>)) names ks \<Longrightarrow>
     copy_files fs names = Inr (concat (map g ks))"
  by (induction names ks rule: list_all2_induct) simp_all

lemma list_all2_distinct:
  assumes "list_all2 P xs ys" and "distinct xs"
    and "\<And>x x' y. P x y \<Longrightarrow> P x' y \<Longrightarrow> x = x'"
  shows "distinct ys"
  using assms(1,2)
proof (induction xs ys rule: list_all2_induct)
  case Nil
  show ?case by simp
next
  case (Cons x xs y ys)
  have "y \<notin> set ys"
  proof
    assume "y \<in> set ys"
    then obtain i where i: "i < length ys" "ys ! i = y"
      by (auto simp: in_set_conv_nth)
    with Cons.hyps(2) have "P (xs ! i) y" "i < length xs"
      by (auto dest: list_all2_nthD2 list_all2_lengthD)
    with assms(3) [OF Cons.hyps(1)] have "x \<in> set xs"
      by (metis nth_mem)
    with Cons.prems show False by simp
  qed
  with Cons show ?case by simp
qed

lemma list_all2_right: "list_all2 P xs ys \<Longrightarrow> y \<in> set ys \<Longrightarrow> \<exists>x \<in> set xs. P x y"
  by (induction xs ys rule: list_all2_induct) auto

lemma list_all2_left: "list_all2 P xs ys \<Longrightarrow> x \<in> set xs \<Longrightarrow> \<exists>y \<in> set ys. P x y"
  by (induction xs ys rule: list_all2_induct) auto

lemma duplicated_set:
  "set (duplicated items recs) = {\<kappa>. 2 \<le> length (occurrences items recs \<kappa>)}"
  by (auto simp: duplicated_def keys_in_order_set)

lemma duplicated_distinct: "distinct (duplicated items recs)"
  by (simp add: duplicated_def keys_in_order_distinct)

lemma ms_copy_plain:
  assumes inv: "ms_inv items temp recs st" and cont: "ms_content items recs st"
    and fi: "ms_files_inv temp st"
    and perm: "\<forall>ps. set (glob_order ps) = set ps \<and> (distinct ps \<longrightarrow> distinct (glob_order ps))"
  shows "\<exists>ks. copy_files (files st)
            (glob_order (filter (glob_match temp) (map fst (files st))))
          = Inr (concat (map (group_bytes items recs) ks))
       \<and> distinct ks \<and> set ks = set (duplicated items recs)"
proof -
  define P where "P p \<kappa> \<longleftrightarrow> (\<exists>mv. dict_lookup (finger_print_map st) \<kappa> = Some mv
      \<and> mv_tag mv = TAG_EXISTING \<and> mv_path mv = p)" for p \<kappa>
  let ?all = "map (temp_file temp) [1..<Suc (count st)]"
  let ?names = "glob_order ?all"
  from fi have names: "filter (glob_match temp) (map fst (files st)) = ?all"
    by (simp add: ms_files_inv_def)
  have "distinct ?all"
    by (auto simp: distinct_map inj_on_def dest: temp_file_inj)
  with perm have dn: "distinct ?names" and sn: "set ?names = set ?all"
    by blast+
  have "\<forall>p \<in> set ?names. \<exists>\<kappa>. P p \<kappa>"
  proof
    fix p assume "p \<in> set ?names"
    with sn obtain j where "1 \<le> j" "j \<le> count st" "p = temp_file temp j"
      by auto
    with fi show "\<exists>\<kappa>. P p \<kappa>"
      unfolding ms_files_inv_def P_def by blast
  qed
  from ex_list_all2 [OF this] obtain ks where ks: "list_all2 P ?names ks"
    by blast
  have "list_all2 (\<lambda>p \<kappa>. map_of (files st) p = Some (group_bytes items recs \<kappa>)) ?names ks"
    using ks cont unfolding P_def ms_content_def
    by (auto elim!: list_all2_mono)
  from copy_files_groups [OF this]
  have copy: "copy_files (files st) ?names = Inr (concat (map (group_bytes items recs) ks))" .
  have "distinct ks"
    using ks dn
  proof (rule list_all2_distinct)
    fix x x' y assume "P x y" "P x' y"
    then show "x = x'" by (auto simp: P_def)
  qed
  moreover have "set ks = set (duplicated items recs)"
  proof (intro set_eqI iffI)
    fix \<kappa> assume "\<kappa> \<in> set ks"
    from list_all2_right [OF ks this] obtain mv where
      "dict_lookup (finger_print_map st) \<kappa> = Some mv" "mv_tag mv = TAG_EXISTING"
      by (auto simp: P_def)
    with ms_inv_tag [OF inv this(1)] show "\<kappa> \<in> set (duplicated items recs)"
      by (simp add: duplicated_set)
  next
    fix \<kappa> assume "\<kappa> \<in> set (duplicated items recs)"
    then have two: "2 \<le> length (occurrences items recs \<kappa>)"
      by (simp add: duplicated_set)
    from inv have "ms_entry_ok temp st (occurrences items recs \<kappa>)
        (dict_lookup (finger_print_map st) \<kappa>)"
      by (simp add: ms_inv_def)
    with two obtain mv j where mv: "dict_lookup (finger_print_map st) \<kappa> = Some mv"
      "mv_tag mv = TAG_EXISTING" "1 \<le> j" "j \<le> count st" "mv_path mv = temp_file temp j"
      unfolding ms_entry_ok_def by blast
    then have "mv_path mv \<in> set ?all"
      by (simp add: image_iff del: upt_Suc) (metis Suc_le_eq le_imp_less_Suc atLeastLessThan_iff)
    with sn have "mv_path mv \<in> set ?names"
      by simp
    from list_all2_left [OF ks this] obtain \<kappa>' mv' where k': "\<kappa>' \<in> set ks"
      "dict_lookup (finger_print_map st) \<kappa>' = Some mv'" "mv_tag mv' = TAG_EXISTING"
      "mv_path mv' = mv_path mv"
      by (auto simp: P_def)
    with inv mv have "\<kappa>' = \<kappa>"
      unfolding ms_inv_def by blast
    with k' show "\<kappa> \<in> set ks" by simp
  qed
  ultimately show ?thesis
    using copy names by auto
qed

text \<open>
  The disk-resident strategy on a well-formed input, when the listing of the temporary
  directory is a permutation of its files: the output file is the groups of the
  duplicated fingerprints, each once, in the order of the listing.
\<close>

theorem ms_main_plain:
  assumes wf: "well_formed items data"
    and perm: "\<forall>ps. set (glob_order ps) = set ps \<and> (distinct ps \<longrightarrow> distinct (glob_order ps))"
  shows "\<exists>fs' ks. ms_main items glob_order (Some data) odir fs = Inr fs'
     \<and> map_of fs' (output_path odir)
         = Some (concat (map (group_bytes items (scan_records data 0)) ks))
     \<and> distinct ks \<and> set ks = set (duplicated items (scan_records data 0))"
proof -
  let ?recs = "scan_records data 0"
  let ?temp = "temp_path odir"
  let ?fs0 = "clean_and_create_directory ?temp
      (clean_and_create_directory (if odir = [] then ''output'' else odir) fs)"
  from ms_run_plain [OF wf subset_refl] obtain st where
    run: "run_records (ms_body items data ?temp) ?recs
            \<lparr>finger_print_map = [], count = 0, files = ?fs0\<rparr> = Inr st"
    and cont: "ms_content items ?recs st"
    by blast
  then have pd: "ms_process_data items (Some data) odir fs = Inr st"
    by (simp add: ms_process_data_def Let_def process_loop_run)
  have "filter (glob_match ?temp) (map fst ?fs0) = []"
    by (simp add: clean_and_create_directory_def rmtree_no_match)
  from ms_files_inv_run [OF this run] have fi: "ms_files_inv ?temp st" .
  from ms_copy_plain [OF ms_inv_run [OF run] cont fi perm] obtain ks where
    copy: "copy_files (files st) (glob_order (filter (glob_match ?temp) (map fst (files st))))
        = Inr (concat (map (group_bytes items ?recs) ks))"
    and ks: "distinct ks" "set ks = set (duplicated items ?recs)"
    by blast
  from perm have sub: "\<forall>ps. set (glob_order ps) \<subseteq> set ps"
    by simp
  from ms_merge_result [OF sub, of odir True "files st"] copy
  obtain fs' where "ms_merge_and_create_output glob_order odir True (files st) = Inr fs'"
    "map_of fs' (output_path odir) = Some (concat (map (group_bytes items ?recs) ks))"
    by (cases "ms_merge_and_create_output glob_order odir True (files st)") auto
  with pd ks show ?thesis
    by (auto simp: ms_main_def)
qed

text \<open>
  Both strategies on the same well-formed input: the same groups, byte for byte, up to
  their order in the file.
\<close>

theorem strategies_agree_plain:
  assumes wf: "well_formed items data"
    and perm: "\<forall>ps. set (glob_order ps) = set ps \<and> (distinct ps \<longrightarrow> distinct (glob_order ps))"
  shows "\<exists>fs1 fs2 ks.
     rt_main items (Some data) odir fs = Inr fs1
     \<and> ms_main items glob_order (Some data) odir fs' = Inr fs2
     \<and> map_of fs1 (output_path odir)
         = Some (concat (map (group_bytes items (scan_records data 0))
                           (duplicated items (scan_records data 0))))
     \<and> map_of fs2 (output_path odir)
         = Some (concat (map (group_bytes items (scan_records data 0)) ks))
     \<and> distinct ks \<and> set ks = set (duplicated items (scan_records data 0))"
proof -
  from ms_main_plain [OF wf perm, of odir fs'] obtain fs2 ks where
    "ms_main items glob_order (Some data) odir fs' = Inr fs2"
    "map_of fs2 (output_path odir)
       = Some (concat (map (group_bytes items (scan_records data 0)) ks))"
    "distinct ks" "set ks = set (duplicated items (scan_records data 0))"
    by blast
  moreover from rt_main_plain [OF wf, of odir fs] have
    "\<exists>fs1. rt_main items (Some data) odir fs = Inr fs1
       \<and> map_of fs1 (output_path odir)
         = Some (concat (map (group_bytes items (scan_records data 0))
                           (duplicated items (scan_records data 0))))"
    by (simp add: update_conv')
  ultimately show ?thesis by blast
qed

lemma distinct_singleton: "distinct ks \<Longrightarrow> set ks = {a} \<Longrightarrow> ks = [a]"
proof (cases ks)
  case Nil
  assume "set ks = {a}"
  with Nil show ?thesis by simp
next
  case (Cons k rest)
  assume d: "distinct ks" and s: "set ks = {a}"
  with Cons have k: "k = a" by auto
  have "rest = []"
  proof (cases rest)
    case Nil
    then show ?thesis .
  next
    case (Cons k' rest')
    with s \<open>ks = k # rest\<close> have "k' = a" by auto
    with d k \<open>ks = k # rest\<close> Cons show ?thesis by simp
  qed
  with Cons k show ?thesis by simp
qed

text \<open>The example \<open>aba\<close> is well formed, and both strategies write the one group of A.\<close>

lemma scan_aba:
  "scan_records aba 0 = [(0, 43, recA @ lf), (43, 43, recB @ lf), (86, 43, recA @ lf)]"
  by code_simp

lemma well_formed_aba: "well_formed demo_items aba"
proof -
  have "plain aba"
    by code_simp
  moreover have "finger_print_str demo_items (recA @ lf) = Inr (PyStr (ustr ''A''))"
    "finger_print_str demo_items (recB @ lf) = Inr (PyStr (ustr ''B''))"
    by code_simp+
  moreover have "ascii ''A''" "ascii ''B''"
    by code_simp+
  moreover have "bstrip (recA @ lf) \<noteq> [] \<and> last (bstrip (recA @ lf)) \<noteq> CHR '',''"
    "bstrip (recB @ lf) \<noteq> [] \<and> last (bstrip (recB @ lf)) \<noteq> CHR '',''"
    by code_simp+
  ultimately show ?thesis
    unfolding well_formed_def scan_aba by auto
qed

lemma duplicated_aba: "duplicated demo_items (scan_records aba 0) = [KStr (ustr ''A'')]"
  by code_simp

lemma group_aba:
  \<open>group_bytes demo_items (scan_records aba 0) (KStr (ustr ''A''))
     = ''{"fingerprint": "A", "certificates": ['' @ recA @ '','' @ recA @ '']}'' @ lf\<close>
  by code_simp

theorem strategies_agree_aba:
  \<open>\<exists>fs1 fs2.
     rt_main demo_items (Some aba) ''out'' [] = Inr fs1
     \<and> ms_main demo_items id (Some aba) ''out'' [] = Inr fs2
     \<and> map_of fs1 (output_path ''out'')
         = Some (''{"fingerprint": "A", "certificates": ['' @ recA @ '','' @ recA @ '']}'' @ lf)
     \<and> map_of fs2 (output_path ''out'') = map_of fs1 (output_path ''out'')\<close>
proof -
  have "\<forall>ps. set (id ps) = set ps \<and> (distinct ps \<longrightarrow> distinct (id ps))"
    by simp
  from strategies_agree_plain [OF well_formed_aba this, of "''out''" "[]" "[]"]
  obtain fs1 fs2 ks where r: "rt_main demo_items (Some aba) ''out'' [] = Inr fs1"
    "ms_main demo_items id (Some aba) ''out'' [] = Inr fs2"
    "map_of fs1 (output_path ''out'')
       = Some (concat (map (group_bytes demo_items (scan_records aba 0))
                         (duplicated demo_items (scan_records aba 0))))"
    "map_of fs2 (output_path ''out'')
       = Some (concat (map (group_bytes demo_items (scan_records aba 0)) ks))"
    "distinct ks" "set ks = set (duplicated demo_items (scan_records aba 0))"
    by blast
  from r(5,6) have "ks = [KStr (ustr ''A'')]"
    unfolding duplicated_aba by (intro distinct_singleton) simp_all
  with r(1-4) show ?thesis
    by (simp add: duplicated_aba group_aba)
qed

section \<open>The claims\<close>

lemma scan_abaa:
  "scan_records abaa 0 =
     [(0, 43, recA @ lf), (43, 43, recB @ lf), (86, 43, recA @ lf), (129, 43, recA @ lf)]"
  by code_simp

text \<open>
  C9. In the disk-resident strategy, after any part \<open>recs\<close> of a run, the counter of
  output paths is the number of fingerprints seen at least twice (so it was incremented
  once for each of them, at its second record, and not again) and never decreases later;
  an entry has the tag \<^verbatim>\<open>EX\<close> exactly when its fingerprint was seen at least twice, and
  an entry with the tag \<^verbatim>\<open>EX\<close> keeps that tag and its path in the rest of the run; two
  different fingerprints with the tag \<^verbatim>\<open>EX\<close> have different paths.
\<close>

theorem ms_counter_tags_paths:
  assumes "run_records (ms_body items data temp) recs
             \<lparr>finger_print_map = [], count = 0, files = fs\<rparr> = Inr st"
    and "run_records (ms_body items data temp) rest st = Inr st2"
  shows "count st = card {\<kappa>. 2 \<le> length (occurrences items recs \<kappa>)}
    \<and> count st \<le> count st2
    \<and> (\<forall>\<kappa> mv. dict_lookup (finger_print_map st) \<kappa> = Some mv \<longrightarrow>
          (mv_tag mv = TAG_EXISTING \<longleftrightarrow> 2 \<le> length (occurrences items recs \<kappa>)))
    \<and> (\<forall>\<kappa> mv. dict_lookup (finger_print_map st) \<kappa> = Some mv \<and> mv_tag mv = TAG_EXISTING \<longrightarrow>
          (\<exists>mv2. dict_lookup (finger_print_map st2) \<kappa> = Some mv2 \<and> mv_tag mv2 = TAG_EXISTING
             \<and> mv_path mv2 = mv_path mv))
    \<and> (\<forall>\<kappa> \<kappa>' mv mv'. dict_lookup (finger_print_map st) \<kappa> = Some mv
          \<and> dict_lookup (finger_print_map st) \<kappa>' = Some mv'
          \<and> mv_tag mv = TAG_EXISTING \<and> mv_tag mv' = TAG_EXISTING \<and> \<kappa> \<noteq> \<kappa>'
          \<longrightarrow> mv_path mv \<noteq> mv_path mv')"
proof -
  from assms(1) have inv: "ms_inv items temp recs st"
    by (rule ms_inv_run)
  then have "count st = card {\<kappa>. 2 \<le> length (occurrences items recs \<kappa>)}"
    by (simp add: ms_inv_def)
  moreover from assms(2) have "count st \<le> count st2"
    by (rule ms_run_count_mono)
  moreover have "\<forall>\<kappa> mv. dict_lookup (finger_print_map st) \<kappa> = Some mv \<longrightarrow>
          (mv_tag mv = TAG_EXISTING \<longleftrightarrow> 2 \<le> length (occurrences items recs \<kappa>))"
    using ms_inv_tag [OF inv] by blast
  moreover have "\<forall>\<kappa> mv. dict_lookup (finger_print_map st) \<kappa> = Some mv \<and> mv_tag mv = TAG_EXISTING \<longrightarrow>
          (\<exists>mv2. dict_lookup (finger_print_map st2) \<kappa> = Some mv2 \<and> mv_tag mv2 = TAG_EXISTING
             \<and> mv_path mv2 = mv_path mv)"
    using ms_run_keeps_existing [OF assms(2)] by blast
  moreover have "\<forall>\<kappa> \<kappa>' mv mv'. dict_lookup (finger_print_map st) \<kappa> = Some mv
          \<and> dict_lookup (finger_print_map st) \<kappa>' = Some mv'
          \<and> mv_tag mv = TAG_EXISTING \<and> mv_tag mv' = TAG_EXISTING \<and> \<kappa> \<noteq> \<kappa>'
          \<longrightarrow> mv_path mv \<noteq> mv_path mv'"
    using inv unfolding ms_inv_def by blast
  ultimately show ?thesis by blast
qed

theorem ms_counter_tags_paths_witness:
  "\<exists>st st2.
     run_records (ms_body demo_items abaa ''out/temp'')
       [(0, 43, recA @ lf), (43, 43, recB @ lf), (86, 43, recA @ lf)]
       \<lparr>finger_print_map = [], count = 0, files = []\<rparr> = Inr st
     \<and> run_records (ms_body demo_items abaa ''out/temp'') [(129, 43, recA @ lf)] st = Inr st2
     \<and> count st = 1 \<and> count st2 = 1
     \<and> count st = card {\<kappa>. 2 \<le> length (occurrences demo_items
          [(0, 43, recA @ lf), (43, 43, recB @ lf), (86, 43, recA @ lf)] \<kappa>)}"
proof -
  let ?recs = "[(0, 43, recA @ lf), (43, 43, recB @ lf), (86, 43, recA @ lf)]"
  let ?run = "run_records (ms_body demo_items abaa ''out/temp'')"
  have "case ?run ?recs \<lparr>finger_print_map = [], count = 0, files = []\<rparr> of
          Inl x \<Rightarrow> False
        | Inr st \<Rightarrow> count st = 1 \<and>
            (case ?run [(129, 43, recA @ lf)] st of Inl x \<Rightarrow> False | Inr st2 \<Rightarrow> count st2 = 1)"
    by code_simp
  then obtain st st2 where
    1: "?run ?recs \<lparr>finger_print_map = [], count = 0, files = []\<rparr> = Inr st"
    and 2: "?run [(129, 43, recA @ lf)] st = Inr st2" and 3: "count st = 1" "count st2 = 1"
    by (auto split: sum.splits)
  from ms_counter_tags_paths [OF 1 2] 1 2 3 show ?thesis
    by blast
qed



text \<open>
  C10, as amended. The records the scan visits are contiguous from position 0, each
  length is the length of the line that \<^verbatim>\<open>readline\<close> returned at the record's start
  (terminator included), and the lines together are the whole file. The memory-resident
  index stores the location of every record, under the record's fingerprint and in the
  order of the input. The disk-resident index stores, for every fingerprint, the location
  of its first record only.
\<close>

theorem stored_locations:
  "contiguous 0 (scan_records data 0)
   \<and> concat (map (\<lambda>(s, l, line). line) (scan_records data 0)) = data
   \<and> (\<forall>r \<in> set (scan_records data 0). snd (snd r) = readline (drop (fst r) data))
   \<and> (rt_process_data items (Some data) = Inr m \<longrightarrow>
        (\<forall>r \<in> set (scan_records data 0). record_key items r \<noteq> None)
        \<and> (\<forall>\<kappa>. dict_lookup m \<kappa> =
              (if occurrences items (scan_records data 0) \<kappa> = [] then None
               else Some (map location (occurrences items (scan_records data 0) \<kappa>)))))
   \<and> (ms_process_data items (Some data) odir fs = Inr st \<longrightarrow>
        (\<forall>\<kappa>. (dict_lookup (finger_print_map st) \<kappa> = None
                \<longleftrightarrow> occurrences items (scan_records data 0) \<kappa> = [])
           \<and> (\<forall>mv. dict_lookup (finger_print_map st) \<kappa> = Some mv \<longrightarrow>
                 (mv_start mv, mv_length mv)
                   = location (hd (occurrences items (scan_records data 0) \<kappa>)))))"
proof -
  have 1: "contiguous 0 (scan_records data 0)"
    by (rule scan_contiguous)
  have 2: "concat (map (\<lambda>(s, l, line). line) (scan_records data 0)) = data"
    using scan_concat [of 0 data] by simp
  have 3: "\<forall>r \<in> set (scan_records data 0). snd (snd r) = readline (drop (fst r) data)"
    using scan_lines [of _ _ _ data 0] by auto
  have 4: "(\<forall>r \<in> set (scan_records data 0). record_key items r \<noteq> None)
        \<and> (\<forall>\<kappa>. dict_lookup m \<kappa> =
              (if occurrences items (scan_records data 0) \<kappa> = [] then None
               else Some (map location (occurrences items (scan_records data 0) \<kappa>))))"
    if "rt_process_data items (Some data) = Inr m"
  proof -
    from that have run: "run_records (rt_body items) (scan_records data 0) [] = Inr m"
      by (simp add: rt_process_data_def process_loop_run)
    from rt_run_keys [OF run] rt_run_positions [OF run] show ?thesis
      by blast
  qed
  have 5: "\<forall>\<kappa>. (dict_lookup (finger_print_map st) \<kappa> = None
                \<longleftrightarrow> occurrences items (scan_records data 0) \<kappa> = [])
           \<and> (\<forall>mv. dict_lookup (finger_print_map st) \<kappa> = Some mv \<longrightarrow>
                 (mv_start mv, mv_length mv)
                   = location (hd (occurrences items (scan_records data 0) \<kappa>)))"
    if "ms_process_data items (Some data) odir fs = Inr st"
  proof -
    from ms_process_data_run [OF that] obtain fs0 where
      "run_records (ms_body items data (temp_path odir)) (scan_records data 0)
         \<lparr>finger_print_map = [], count = 0, files = fs0\<rparr> = Inr st"
      by blast
    from ms_inv_location [OF ms_inv_run [OF this]] show ?thesis
      by blast
  qed
  from 1 2 3 4 5 show ?thesis
    by blast
qed


text \<open>
  C10 as stated fails for the disk-resident strategy: for two records with one
  fingerprint the index stores the one location \<open>(0, 43)\<close>, which does not cover the 86
  bytes scanned.
\<close>

theorem stored_locations_counterexample:
  "map_sum fst ms_stored (ms_process_data demo_items (Some aa) ''out'' []) = Inr [(0, 43)]
   \<and> length aa = 86"
  by code_simp

theorem stored_locations_witness:
  "\<exists>m st. rt_process_data demo_items (Some aba) = Inr m
     \<and> ms_process_data demo_items (Some aba) ''out'' [] = Inr st
     \<and> dict_lookup m (KStr (ustr ''A'')) = Some [(0, 43), (86, 43)]
     \<and> (\<exists>mv. dict_lookup (finger_print_map st) (KStr (ustr ''A'')) = Some mv
           \<and> (mv_start mv, mv_length mv) = (0, 43))"
proof -
  from rt_aba_runs obtain m where m: "rt_process_data demo_items (Some aba) = Inr m"
    by (auto simp: rt_main_def split: sum.splits)
  from ms_aba_runs obtain st where st: "ms_process_data demo_items (Some aba) ''out'' [] = Inr st"
    by (auto simp: ms_main_def split: sum.splits)
  from stored_locations [of aba demo_items m "''out''" "[]" st] m st
  have 1: "dict_lookup m (KStr (ustr ''A'')) =
      (if occurrences demo_items (scan_records aba 0) (KStr (ustr ''A'')) = [] then None
       else Some (map location (occurrences demo_items (scan_records aba 0) (KStr (ustr ''A'')))))"
    and 2: "dict_lookup (finger_print_map st) (KStr (ustr ''A'')) = None
         \<longleftrightarrow> occurrences demo_items (scan_records aba 0) (KStr (ustr ''A'')) = []"
    and 3: "\<forall>mv. dict_lookup (finger_print_map st) (KStr (ustr ''A'')) = Some mv \<longrightarrow>
         (mv_start mv, mv_length mv)
           = location (hd (occurrences demo_items (scan_records aba 0) (KStr (ustr ''A''))))"
    by blast+
  from 1 have "dict_lookup m (KStr (ustr ''A'')) = Some [(0, 43), (86, 43)]"
    by (simp add: occ_aba_A location_def)
  moreover from 2 3 have "\<exists>mv. dict_lookup (finger_print_map st) (KStr (ustr ''A'')) = Some mv
           \<and> (mv_start mv, mv_length mv) = (0, 43)"
    by (cases "dict_lookup (finger_print_map st) (KStr (ustr ''A''))")
       (simp_all add: occ_aba_A location_def)
  ultimately show ?thesis
    using m st by blast
qed


text \<open>
  C8, as amended. When the input has a line on which the extraction raises (the parser
  rejects the line, nothing is at the path, the object there has no member
  \<^verbatim>\<open>fingerprint\<close>, or the value is a list or a dict, which cannot be hashed), \<^verbatim>\<open>process_data\<close>
  of either strategy raises and the script ends: the memory-resident script has not
  touched the file system, and the disk-resident script leaves no file at the output
  path.
\<close>

theorem extraction_error_aborts:
  assumes "r \<in> set (scan_records data 0)" and "record_key items r = None"
  shows "(\<exists>e. rt_main items (Some data) odir fs = Inl (e, Some fs))
     \<and> (\<exists>e fs'. ms_main items glob_order (Some data) odir fs = Inl (e, Some fs')
            \<and> map_of fs' (output_path odir) = None)"
proof
  from assms(2) obtain e where e: "finger_print_str items (snd (snd r)) = Inl e"
    by (auto simp: record_key_def split: sum.splits)
  then have "\<forall>m. \<exists>e. rt_body items (fst r) (fst (snd r)) (snd (snd r)) m = Inl e"
    by (simp add: rt_body_def)
  with run_records_fails [of r "scan_records data 0" "rt_body items" "[]"] assms(1)
  obtain e' m where "run_records (rt_body items) (scan_records data 0) [] = Inl (e', m)"
    by blast
  then show "\<exists>e. rt_main items (Some data) odir fs = Inl (e, Some fs)"
    by (simp add: rt_main_def rt_process_data_def process_loop_run)
next
  let ?temp = "temp_path odir"
  let ?dir = "if odir = [] then ''output'' else odir"
  let ?fs0 = "clean_and_create_directory ?temp (clean_and_create_directory ?dir fs)"
  let ?init = "\<lparr>finger_print_map = [], count = 0, files = ?fs0\<rparr>"
  from assms(2) obtain e where e: "finger_print_str items (snd (snd r)) = Inl e"
    by (auto simp: record_key_def split: sum.splits)
  then have "\<forall>st. \<exists>e. ms_body items data ?temp (fst r) (fst (snd r)) (snd (snd r)) st = Inl e"
    by (simp add: ms_body_def)
  with run_records_fails [of r "scan_records data 0" "ms_body items data ?temp" ?init] assms(1)
  obtain e' st where
    ab: "run_records (ms_body items data ?temp) (scan_records data 0) ?init = Inl (e', st)"
    by blast
  from run_records_Inl [OF ab] obtain rs where
    rs: "run_records (ms_body items data ?temp) rs ?init = Inr st"
    by blast
  have "\<forall>j. output_path odir \<noteq> temp_file ?temp j"
    using output_not_temp_file by blast
  from ms_run_other_files [OF this rs]
  have "map_of (files st) (output_path odir) = map_of ?fs0 (output_path odir)" .
  also have "\<dots> = None"
    using output_in_directory [of odir] output_not_temp [of odir]
    by (simp add: clean_and_create_directory_def map_of_rmtree map_of_rmtree_inside)
  finally have none: "map_of (files st) (output_path odir) = None" .
  from ab have "ms_main items glob_order (Some data) odir fs = Inl (e', Some (files st))"
    by (simp add: ms_main_def ms_process_data_def process_loop_run Let_def)
  with none show "\<exists>e fs'. ms_main items glob_order (Some data) odir fs = Inl (e, Some fs')
            \<and> map_of fs' (output_path odir) = None"
    by blast
qed

theorem extraction_error_aborts_witness:
  "(43, 12, recX @ lf) \<in> set (scan_records ax 0)
   \<and> record_key demo_items (43, 12, recX @ lf) = None
   \<and> (\<exists>e. rt_main demo_items (Some ax) ''out'' [] = Inl (e, Some []))
   \<and> (\<exists>e fs'. ms_main demo_items id (Some ax) ''out'' [] = Inl (e, Some fs')
          \<and> map_of fs' (output_path ''out'') = None)"
proof -
  have 1: "(43, 12, recX @ lf) \<in> set (scan_records ax 0)"
    by (simp add: scan_ax)
  from extraction_error_aborts [OF 1 key_recX, of "''out''" "[]" id] 1 key_recX
  show ?thesis by blast
qed

text \<open>
  C8 as stated fails where the value at the path is not a string but a number: the
  extraction returns the number, the scan goes on, and both scripts finish and write
  their (empty) output file.
\<close>

theorem extraction_error_aborts_counterexample:
  "finger_print_str demo_items (rec5 @ lf) = Inr (PyInt 5)
   \<and> rt_main demo_items (Some (rec5 @ lf)) ''out'' []
       = Inr [(''out/duplicate_certificates.jsonline'', [])]
   \<and> ms_main demo_items id (Some (rec5 @ lf)) ''out'' []
       = Inr [(''out/duplicate_certificates.jsonline'', [])]"
  by code_simp

text \<open>
  C7. What a run leaves (the exception, or the bytes of the output file) does not depend
  on the files found at the start, so it is the same for a second run on the same input,
  with either strategy. The order in which \<^verbatim>\<open>glob\<close> lists the temporary files is a function
  of their names, and \<^verbatim>\<open>glob\<close> returns only paths that exist.
\<close>

theorem rerun_same_output:
  assumes "\<forall>ps. set (glob_order ps) \<subseteq> set ps"
  shows "outcome odir (rt_main items input_file odir fs)
           = outcome odir (rt_main items input_file odir fs')
     \<and> outcome odir (ms_main items glob_order input_file odir fs)
           = outcome odir (ms_main items glob_order input_file odir fs')"
  using rt_main_sim [of odir items input_file fs] rt_main_sim [of odir items input_file fs']
    ms_main_sim [OF assms, of odir items input_file fs]
    ms_main_sim [OF assms, of odir items input_file fs']
  by simp

theorem rerun_same_output_witness:
  "(\<forall>ps. set (id ps) \<subseteq> set ps)
   \<and> ms_main demo_items id (Some aa) ''out'' []
        = Inr [(out_file, headerA @ recA @ '','' @ recA @ '']}'' @ lf)]
   \<and> outcome ''out'' (ms_main demo_items id (Some aa) ''out''
        [(out_file, headerA @ recA @ '','' @ recA @ '']}'' @ lf)])
        = Inr (Some (headerA @ recA @ '','' @ recA @ '']}'' @ lf))
   \<and> outcome ''out'' (rt_main demo_items (Some aa) ''out''
        [(out_file, headerA @ recA @ '','' @ recA @ '']}'' @ lf)])
        = outcome ''out'' (rt_main demo_items (Some aa) ''out'' [])"
proof -
  have sub: "\<forall>ps. set (id ps) \<subseteq> set ps"
    by simp
  have 1: "ms_main demo_items id (Some aa) ''out'' []
        = Inr [(out_file, headerA @ recA @ '','' @ recA @ '']}'' @ lf)]"
    by code_simp
  have 2: "output_path ''out'' = out_file"
    by code_simp
  let ?fs1 = "[(out_file, headerA @ recA @ '','' @ recA @ '']}'' @ lf)]"
  note r = rerun_same_output [OF sub, of "''out''" demo_items "Some aa" ?fs1 "[]"]
  have 3: "outcome ''out'' (ms_main demo_items id (Some aa) ''out'' [])
      = Inr (Some (headerA @ recA @ '','' @ recA @ '']}'' @ lf))"
    unfolding 1 by (simp add: outcome_def 2)
  from r have "outcome ''out'' (ms_main demo_items id (Some aa) ''out'' ?fs1)
      = outcome ''out'' (ms_main demo_items id (Some aa) ''out'' [])"
    by (rule conjunct2)
  with 3 have 4: "outcome ''out'' (ms_main demo_items id (Some aa) ''out'' ?fs1)
      = Inr (Some (headerA @ recA @ '','' @ recA @ '']}'' @ lf))"
    by (rule trans [rotated])
  from r have 5: "outcome ''out'' (rt_main demo_items (Some aa) ''out'' ?fs1)
      = outcome ''out'' (rt_main demo_items (Some aa) ''out'' [])"
    by (rule conjunct1)
  from sub 1 4 5 show ?thesis
    by (intro conjI)
qed

text \<open>
  C3 fails on the code. The look-back read counts characters where the stored length
  counts bytes: for two records with a two-byte character each, the first entry of the
  group is the first record, a line feed and the first character of the second line.
\<close>

theorem records_not_verbatim_utf8:
  "rt_main demo_items (Some (recE @ lf @ recE @ lf)) ''out'' []
     = Inr [(out_file, headerA @ recE @ lf @ ''{'' @ '','' @ recE @ '']}'' @ lf)]
   \<and> ms_main demo_items id (Some (recE @ lf @ recE @ lf)) ''out'' []
     = Inr [(out_file, headerA @ recE @ lf @ ''{'' @ '','' @ recE @ '']}'' @ lf)]"
  by code_simp

text \<open>
  C1 fails on the code, by the same look-back read: with lines that end in CR LF the
  two bytes are read as one character, and the group of a fingerprint that occurs twice
  is not the group of its two records.
\<close>

theorem group_not_the_records_crlf:
  "rt_main demo_items (Some (recA @ crlf @ recA @ crlf)) ''out'' []
     = Inr [(out_file, headerA @ recA @ lf @ ''{'' @ '','' @ recA @ '']}'' @ lf)]
   \<and> ms_main demo_items id (Some (recA @ crlf @ recA @ crlf)) ''out'' []
     = Inr [(out_file, headerA @ recA @ lf @ ''{'' @ '','' @ recA @ '']}'' @ lf)]
   \<and> headerA @ recA @ lf @ ''{'' @ '','' @ recA @ '']}'' @ lf
     \<noteq> headerA @ recA @ '','' @ recA @ '']}'' @ lf"
  by code_simp

text \<open>
  C2 fails on the code, by the same look-back read: the memory-resident strategy re-reads
  every record that way, the disk-resident strategy only the first of a group, so for
  three records with a two-byte character each the two outputs differ in the second
  entry.
\<close>

theorem strategies_differ_utf8:
  "rt_main demo_items (Some (recE @ lf @ recE @ lf @ recE @ lf)) ''out'' []
     = Inr [(out_file,
         headerA @ recE @ lf @ ''{'' @ '','' @ recE @ lf @ ''{'' @ '','' @ recE @ '']}'' @ lf)]
   \<and> ms_main demo_items id (Some (recE @ lf @ recE @ lf @ recE @ lf)) ''out'' []
     = Inr [(out_file, headerA @ recE @ lf @ ''{'' @ '','' @ recE @ '','' @ recE @ '']}'' @ lf)]"
  by code_simp

text \<open>
  C6 fails on the code, by the same look-back read: the line feed read with the first
  record cuts the group in two lines, and the first line of the output is the opening
  text and one record, with the array and the object left open.
\<close>

theorem output_line_cut_crlf:
  "map_sum fst (\<lambda>f. map_option first_line (map_of f out_file))
      (rt_main demo_items (Some (recA @ crlf @ recA @ crlf)) ''out'' [])
     = Inr (Some (headerA @ recA))
   \<and> map_sum fst (\<lambda>f. map_option first_line (map_of f out_file))
      (ms_main demo_items id (Some (recA @ crlf @ recA @ crlf)) ''out'' [])
     = Inr (Some (headerA @ recA))"
  by code_simp

end
